theory Spec2Isabelle
  imports Main
begin

section \<open>CSRF protection middleware (csrfMiddleware.js)\<close>

subsection \<open>JavaScript values the guard looks at\<close>

text \<open>
  Every value the guard reads from the request (\<open>req.sessionID\<close>, a cookie, a body field,
  a header) is either \<open>undefined\<close> or a string: \<open>string option\<close>.  The guard only ever
  tests such a value for truthiness (\<open>!v\<close>, \<open>a || b\<close>) or compares it with \<open>!==\<close>.
  \<open>undefined\<close> and the empty string are falsy, every other string is truthy.
\<close>

definition truthy :: "string option \<Rightarrow> bool" where
  "truthy v = (case v of None \<Rightarrow> False | Some s \<Rightarrow> s \<noteq> [])"

text \<open>\<open>a || b\<close>: the left operand when it is truthy, the right operand otherwise.\<close>

definition js_or :: "string option \<Rightarrow> string option \<Rightarrow> string option" where
  "js_or a b = (if truthy a then a else b)"

text \<open>\<open>a || s\<close> where the right operand is a string that is always there.\<close>

definition js_or_str :: "string option \<Rightarrow> string \<Rightarrow> string" where
  "js_or_str a s = (case a of None \<Rightarrow> s | Some x \<Rightarrow> if x \<noteq> [] then x else s)"

text \<open>\<open>s.includes(sub)\<close> on strings.\<close>

fun str_includes :: "string \<Rightarrow> string \<Rightarrow> bool" where
  "str_includes [] sub = (sub = [])"
| "str_includes (c # cs) sub = (take (length sub) (c # cs) = sub \<or> str_includes cs sub)"

subsection \<open>Data model\<close>

text \<open>The value of one \<open>tokenStore\<close> entry: \<open>{ token, expires }\<close>, \<open>expires\<close> in milliseconds.\<close>

record token_record =
  token :: string
  expires :: int

text \<open>\<open>const tokenStore = new Map()\<close>, keyed by the session id.\<close>

type_synonym token_store = "string \<rightharpoonup> token_record"

text \<open>
  The parts of the Express request the middleware reads.  \<open>req.cookies\<close> and \<open>req.body\<close> may
  be \<open>undefined\<close> (they are read through \<open>?.\<close>), \<open>req.headers\<close> is always an object.
  \<open>req_method\<close> is \<open>req.method\<close>, \<open>xhr\<close> is Express's \<open>req.xhr\<close>.
\<close>

record request =
  req_method :: string
  sessionID :: "string option"
  cookies :: "(string \<rightharpoonup> string) option"
  body :: "(string \<rightharpoonup> string) option"
  headers :: "string \<rightharpoonup> string"
  xhr :: bool

text \<open>
  What the middleware reads from outside the request: the clock (\<open>Date.now()\<close>), the
  deployment flag (\<open>process.env.NODE_ENV === 'production'\<close>) and the results of the calls
  of \<open>generateToken()\<close>, that is of \<open>crypto.randomBytes(32).toString('hex')\<close>, in the order
  in which one run of the middleware makes them.
\<close>

record env =
  now :: int
  production :: bool
  generateToken1 :: string
  generateToken2 :: string

text \<open>The options object passed to \<open>res.cookie\<close>.\<close>

record cookie_options =
  httpOnly :: bool
  secure :: bool
  sameSite :: string
  maxAge :: int

text \<open>The \<open>Error\<close> object handed to \<open>next\<close>.\<close>

record js_error =
  message :: string
  statusCode :: int
  code :: string

text \<open>How the middleware leaves: \<open>next()\<close> or \<open>next(error)\<close>.\<close>

datatype outcome = Next | NextError js_error

text \<open>
  Everything one run of \<open>csrfProtection\<close> does: how it calls \<open>next\<close>, the \<open>res.cookie\<close> call
  it made (name, value, options) if any, the value it assigned to \<open>res.locals.csrfToken\<close> if
  any, and the token store afterwards.
\<close>

record guard_result =
  outcome :: outcome
  cookie :: "(string \<times> string \<times> cookie_options) option"
  locals_csrfToken :: "string option"
  tokenStore :: token_store

subsection \<open>The middleware\<close>

definition one_hour :: int where
  "one_hour = 60 * 60 * 1000"

text \<open>The \<open>setInterval\<close> callback: delete every entry with \<open>now > data.expires\<close>.\<close>

definition sweep :: "int \<Rightarrow> token_store \<Rightarrow> token_store" where
  "sweep t st = (\<lambda>k. case st k of None \<Rightarrow> None
                        | Some d \<Rightarrow> if t > expires d then None else Some d)"

definition safe_methods :: "string list" where
  "safe_methods = [''GET'', ''HEAD'', ''OPTIONS'']"

text \<open>\<open>req.cookies?.[name]\<close> and \<open>req.body?.[name]\<close>.\<close>

definition cookie_of :: "request \<Rightarrow> string \<Rightarrow> string option" where
  "cookie_of req name = (case cookies req of None \<Rightarrow> None | Some c \<Rightarrow> c name)"

definition body_of :: "request \<Rightarrow> string \<Rightarrow> string option" where
  "body_of req name = (case body req of None \<Rightarrow> None | Some b \<Rightarrow> b name)"

text \<open>The cookie options the middleware uses at both of its \<open>res.cookie\<close> calls.\<close>

definition csrf_cookie_options :: "env \<Rightarrow> cookie_options" where
  "csrf_cookie_options e =
     \<lparr>httpOnly = False, secure = production e, sameSite = ''strict'', maxAge = one_hour\<rparr>"

text \<open>\<open>const sessionId = req.sessionID || req.cookies?.sessionId\<close> of the validating branch.\<close>

definition sessionId_of :: "request \<Rightarrow> string option" where
  "sessionId_of req = js_or (sessionID req) (cookie_of req ''sessionId'')"

text \<open>
  \<open>const tokenFromRequest = req.body?._csrf || req.headers['x-csrf-token'] ||
  req.cookies?.['csrf-token']\<close>.
\<close>

definition tokenFromRequest :: "request \<Rightarrow> string option" where
  "tokenFromRequest req =
     js_or (body_of req ''_csrf'')
       (js_or (headers req ''x-csrf-token'') (cookie_of req ''csrf-token''))"

definition csrf_missing :: js_error where
  "csrf_missing = \<lparr>message = ''CSRF token missing'', statusCode = 403, code = ''EBADCSRFTOKEN''\<rparr>"

definition csrf_invalid :: js_error where
  "csrf_invalid = \<lparr>message = ''Invalid CSRF token'', statusCode = 403, code = ''EBADCSRFTOKEN''\<rparr>"

text \<open>A rejection: \<open>return next(error)\<close> before anything was stored or set.\<close>

definition reject :: "js_error \<Rightarrow> token_store \<Rightarrow> guard_result" where
  "reject err st =
     \<lparr>outcome = NextError err, cookie = None, locals_csrfToken = None, tokenStore = st\<rparr>"

text \<open>
  Storing a token for a session and handing it to the client, as both the issuing branch
  and the rotating branch do: \<open>tokenStore.set\<close>, \<open>res.cookie\<close>, \<open>res.locals.csrfToken\<close>,
  \<open>next()\<close>.
\<close>

definition issue :: "env \<Rightarrow> string \<Rightarrow> string \<Rightarrow> token_store \<Rightarrow> guard_result" where
  "issue e sid tok st =
     \<lparr>outcome = Next,
      cookie = Some (''csrf-token'', tok, csrf_cookie_options e),
      locals_csrfToken = Some tok,
      tokenStore = st(sid \<mapsto> \<lparr>token = tok, expires = now e + one_hour\<rparr>)\<rparr>"

definition csrfProtection :: "env \<Rightarrow> request \<Rightarrow> token_store \<Rightarrow> guard_result" where
  "csrfProtection e req st =
     (if req_method req \<in> set safe_methods then
        let tok = generateToken1 e;
            sid = js_or_str (sessionID req)
                    (js_or_str (cookie_of req ''sessionId'') (generateToken2 e))
        in issue e sid tok st
      else
        let sessionId = sessionId_of req;
            candidate = tokenFromRequest req
        in if \<not> truthy sessionId \<or> \<not> truthy candidate then reject csrf_missing st
           else (case (sessionId, candidate) of
                   (Some sid, Some cand) \<Rightarrow>
                     (case st sid of
                        None \<Rightarrow> reject csrf_invalid st
                      | Some storedData \<Rightarrow>
                          if token storedData \<noteq> cand then reject csrf_invalid st
                          else issue e sid (generateToken1 e) st)
                 | _ \<Rightarrow> reject csrf_missing st))"

text \<open>What \<open>csrfErrorHandler\<close> does with an error: pass it on, answer in JSON, or render a page.\<close>

datatype handled =
    PassedOn js_error
  | JsonResponse int string string
  | Rendered int string string string

definition accepts_json :: "request \<Rightarrow> bool" where
  "accepts_json req =
     (case headers req ''accept'' of None \<Rightarrow> False
      | Some a \<Rightarrow> str_includes a ''application/json'')"

definition csrfErrorHandler :: "js_error \<Rightarrow> request \<Rightarrow> handled" where
  "csrfErrorHandler err req =
     (if code err \<noteq> ''EBADCSRFTOKEN'' then PassedOn err
      else if xhr req \<or> accepts_json req then
        JsonResponse 403 ''error''
          ''Invalid or missing CSRF token. Please refresh the page and try again.''
      else
        Rendered 403 ''errors/403'' ''Forbidden''
          ''Invalid security token. Please go back and try again.'')"

text \<open>
  The life of the store: requests going through the middleware and runs of the hourly
  sweep, in the order in which they happen.
\<close>

datatype event = Request env request | Sweep int

fun step :: "event \<Rightarrow> token_store \<Rightarrow> token_store" where
  "step (Request e req) st = tokenStore (csrfProtection e req st)"
| "step (Sweep t) st = sweep t st"

fun run :: "event list \<Rightarrow> token_store \<Rightarrow> token_store" where
  "run [] st = st"
| "run (ev # evs) st = run evs (step ev st)"


section \<open>Key sanitization middleware (mongoSanitizer.js)\<close>

subsection \<open>Values, objects and the heap\<close>

text \<open>
  \<open>clean\<close> mutates the objects it is given, and what it returns is sometimes the very
  object it was given and sometimes a new array, so values are modelled with an explicit
  heap.  A value is a primitive or a reference to a heap cell; a cell is a plain object
  (its own enumerable properties, string keys, in the order in which \<open>for ... in\<close> visits
  them) or an array (its elements).  This is the data a parsed JSON body, a parsed
  url-encoded body or a parsed query string consists of.  Prototypes are not part of the
  model, in particular the setter behind the key \<open>__proto__\<close>, and neither is the rule
  that puts integer-like keys first in the order (a key made by the default replacement
  \<open>_\<close> is never integer-like).  Numbers are integers here: the sanitizer only tests a
  number for truthiness.
\<close>

datatype val = Undefined | Null | Boolean bool | Number int | String string | Ref nat

datatype cell = Object "(string \<times> val) list" | Array "val list"

text \<open>The heap: cell \<open>a\<close> is the \<open>a\<close>-th entry; a new cell is appended at the end.\<close>

type_synonym heap = "cell list"

definition lookup :: "heap \<Rightarrow> nat \<Rightarrow> cell option" where
  "lookup h a = (if a < length h then Some (h ! a) else None)"

text \<open>\<open>!value\<close> and \<open>typeof value\<close>.\<close>

definition falsy :: "val \<Rightarrow> bool" where
  "falsy v = (case v of Undefined \<Rightarrow> True | Null \<Rightarrow> True | Boolean b \<Rightarrow> \<not> b
              | Number i \<Rightarrow> i = 0 | String s \<Rightarrow> s = [] | Ref a \<Rightarrow> False)"

definition typeof :: "val \<Rightarrow> string" where
  "typeof v = (case v of Undefined \<Rightarrow> ''undefined'' | Null \<Rightarrow> ''object''
               | Boolean b \<Rightarrow> ''boolean'' | Number i \<Rightarrow> ''number''
               | String s \<Rightarrow> ''string'' | Ref a \<Rightarrow> ''object'')"

text \<open>
  Property access on a plain object: \<open>Object.prototype.hasOwnProperty.call(value, key)\<close>,
  \<open>value[key]\<close> (\<open>undefined\<close> when there is no such property), \<open>value[key] = v\<close> (an
  existing property keeps its place, a new one goes last) and \<open>delete value[key]\<close>.
\<close>

definition has_own :: "(string \<times> val) list \<Rightarrow> string \<Rightarrow> bool" where
  "has_own ps k = (k \<in> set (map fst ps))"

definition obj_get :: "(string \<times> val) list \<Rightarrow> string \<Rightarrow> val" where
  "obj_get ps k = (case map_of ps k of None \<Rightarrow> Undefined | Some v \<Rightarrow> v)"

primrec obj_set :: "string \<Rightarrow> val \<Rightarrow> (string \<times> val) list \<Rightarrow> (string \<times> val) list" where
  "obj_set k v [] = [(k, v)]"
| "obj_set k v (p # ps) = (if fst p = k then (k, v) # ps else p # obj_set k v ps)"

definition obj_delete :: "string \<Rightarrow> (string \<times> val) list \<Rightarrow> (string \<times> val) list" where
  "obj_delete k ps = filter (\<lambda>p. fst p \<noteq> k) ps"

subsection \<open>String operations on keys\<close>

text \<open>\<open>key.startsWith('$')\<close> and \<open>key.includes('.')\<close>, and the test that combines them.\<close>

definition startsWith_dollar :: "string \<Rightarrow> bool" where
  "startsWith_dollar key = (case key of [] \<Rightarrow> False | c # cs \<Rightarrow> c = CHR ''$'')"

definition includes_dot :: "string \<Rightarrow> bool" where
  "includes_dot key = (CHR ''.'' \<in> set key)"

definition forbidden :: "string \<Rightarrow> bool" where
  "forbidden key = (startsWith_dollar key \<or> includes_dot key)"

text \<open>
  The replacement text \<open>String.prototype.replace\<close> inserts for one match when the
  replacement is a string: \<open>$$\<close> stands for \<open>$\<close>, \<open>$&\<close> for the matched text, \<open>$`\<close> for the
  text before the match and \<open>$'\<close> for the text after it; every other character (the
  pattern has no capture group) stands for itself.
\<close>

fun substitution :: "string \<Rightarrow> string \<Rightarrow> string \<Rightarrow> string \<Rightarrow> string" where
  "substitution [] m pre post = []"
| "substitution [c] m pre post = [c]"
| "substitution (c # d # r) m pre post =
     (if c = CHR ''$'' \<and> d = CHR ''$'' then CHR ''$'' # substitution r m pre post
      else if c = CHR ''$'' \<and> d = CHR ''&'' then m @ substitution r m pre post
      else if c = CHR ''$'' \<and> d = CHR 0x60 then pre @ substitution r m pre post
      else if c = CHR ''$'' \<and> d = CHR 0x27 then post @ substitution r m pre post
      else c # substitution (d # r) m pre post)"

text \<open>
  \<open>key.replace(/^\$|\./g, replaceWith)\<close>: scanning \<open>key\<close> from position \<open>pos\<close>, a \<open>$\<close> at
  position 0 and every \<open>.\<close> is a match and is replaced.
\<close>

fun replace_from :: "string \<Rightarrow> string \<Rightarrow> nat \<Rightarrow> string \<Rightarrow> string" where
  "replace_from replaceWith key pos [] = []"
| "replace_from replaceWith key pos (c # cs) =
     (if (pos = 0 \<and> c = CHR ''$'') \<or> c = CHR ''.''
      then substitution replaceWith [c] (take pos key) (drop (Suc pos) key)
             @ replace_from replaceWith key (Suc pos) cs
      else c # replace_from replaceWith key (Suc pos) cs)"

definition replace_key :: "string \<Rightarrow> string \<Rightarrow> string" where
  "replace_key key replaceWith = replace_from replaceWith key 0 key"

subsection \<open>clean and mongoSanitize\<close>

text \<open>
  \<open>onSanitize\<close> is \<open>null\<close> (\<open>None\<close>) or a callback that is told the offending key; what it
  does (in app.js: write a warning to the console) happens in a world \<open>'w\<close> of its own,
  apart from the heap.  \<open>report\<close> is the body of \<open>if (key.startsWith('$') ||
  key.includes('.')) { ...; if (onSanitize ...) onSanitize({ req, key }) }\<close> as far as the
  callback goes.
\<close>

definition report :: "(string \<Rightarrow> 'w \<Rightarrow> 'w) option \<Rightarrow> string \<Rightarrow> 'w \<Rightarrow> 'w" where
  "report onSanitize key w =
     (if forbidden key then (case onSanitize of None \<Rightarrow> w | Some f \<Rightarrow> f key w) else w)"

text \<open>
  The end of the loop body, on the properties \<open>ps\<close> of \<open>value\<close>: \<open>if (keyChanged) { delete
  value[key]; value[newKey] = cleanedValue } else if (value[key] !== cleanedValue) {
  value[key] = cleanedValue }\<close>.
\<close>

definition assign_back ::
  "string \<Rightarrow> string \<Rightarrow> val \<Rightarrow> (string \<times> val) list \<Rightarrow> (string \<times> val) list" where
  "assign_back key replaceWith cleanedValue ps =
     (if forbidden key
      then obj_set (replace_key key replaceWith) cleanedValue (obj_delete key ps)
      else if obj_get ps key \<noteq> cleanedValue then obj_set key cleanedValue ps
      else ps)"

text \<open>
  \<open>value.map(v => clean(v, ...))\<close>: the callback \<open>f\<close> runs on the elements in index order,
  each run starting from the state the one before it left.
\<close>

primrec map_elems :: "(val \<Rightarrow> 's \<Rightarrow> (val \<times> 's) option) \<Rightarrow> val list \<Rightarrow> 's
                        \<Rightarrow> (val list \<times> 's) option" where
  "map_elems f [] s = Some ([], s)"
| "map_elems f (v # vs) s =
     (case f v s of
        None \<Rightarrow> None
      | Some (v', s1) \<Rightarrow>
          (case map_elems f vs s1 of
             None \<Rightarrow> None
           | Some (vs', s2) \<Rightarrow> Some (v' # vs', s2)))"

text \<open>
  \<open>for (const key in value) { if (hasOwnProperty(value, key)) { ... } }\<close> for the object
  at address \<open>a\<close>.  The keys to visit are fixed when the loop starts; a key that has been
  deleted by the time its turn comes is skipped, a key added meanwhile is not visited.
  \<open>rec\<close> is the recursive call \<open>clean(value[key], ...)\<close>.
\<close>

primrec for_in :: "(val \<Rightarrow> heap \<times> 'w \<Rightarrow> (val \<times> heap \<times> 'w) option) \<Rightarrow> string
                     \<Rightarrow> (string \<Rightarrow> 'w \<Rightarrow> 'w) option \<Rightarrow> nat \<Rightarrow> string list
                     \<Rightarrow> heap \<times> 'w \<Rightarrow> (heap \<times> 'w) option" where
  "for_in rec replaceWith onSanitize a [] s = Some s"
| "for_in rec replaceWith onSanitize a (key # keys) s =
     (case lookup (fst s) a of
        Some (Object ps) \<Rightarrow>
          if \<not> has_own ps key then for_in rec replaceWith onSanitize a keys s
          else (case rec (obj_get ps key) (fst s, report onSanitize key (snd s)) of
                  None \<Rightarrow> None
                | Some (cleanedValue, h1, w1) \<Rightarrow>
                    (case lookup h1 a of
                       Some (Object ps1) \<Rightarrow>
                         for_in rec replaceWith onSanitize a keys
                           (h1[a := Object (assign_back key replaceWith cleanedValue ps1)], w1)
                     | _ \<Rightarrow> None))
      | _ \<Rightarrow> None)"

text \<open>
  \<open>clean(value, replaceWith, onSanitize, req)\<close>.  The first argument is the depth of
  calls still available: a call that would nest deeper than that does not return
  (\<open>None\<close>), which is what happens to \<open>clean\<close> on a cyclic structure.  \<open>None\<close> is also the
  answer for a reference to a cell the heap does not have.
\<close>

primrec clean :: "nat \<Rightarrow> string \<Rightarrow> (string \<Rightarrow> 'w \<Rightarrow> 'w) option \<Rightarrow> val \<Rightarrow> heap \<times> 'w
                \<Rightarrow> (val \<times> heap \<times> 'w) option" where
  "clean 0 replaceWith onSanitize v s = None"
| "clean (Suc n) replaceWith onSanitize v s =
     (if falsy v \<or> typeof v \<noteq> ''object'' then Some (v, s)
      else case v of
        Ref a \<Rightarrow>
          (case lookup (fst s) a of
             None \<Rightarrow> None
           | Some (Array vs) \<Rightarrow>
               (case map_elems (clean n replaceWith onSanitize) vs s of
                  None \<Rightarrow> None
                | Some (vs', h', w') \<Rightarrow> Some (Ref (length h'), h' @ [Array vs'], w'))
           | Some (Object ps) \<Rightarrow>
               (case for_in (clean n replaceWith onSanitize) replaceWith onSanitize a (map fst ps) s of
                  None \<Rightarrow> None
                | Some s' \<Rightarrow> Some (Ref a, s')))
      | _ \<Rightarrow> Some (v, s))"

text \<open>
  The middleware \<open>mongoSanitize({ replaceWith, onSanitize })\<close>: each of \<open>req.body\<close>,
  \<open>req.query\<close> and \<open>req.params\<close> that is truthy is cleaned; what \<open>clean\<close> returns is dropped
  and the three fields of \<open>req\<close> are never assigned to.
\<close>

record sanitize_request =
  req_body :: val
  req_query :: val
  req_params :: val

definition clean_field :: "nat \<Rightarrow> string \<Rightarrow> (string \<Rightarrow> 'w \<Rightarrow> 'w) option \<Rightarrow> val \<Rightarrow> heap \<times> 'w
                             \<Rightarrow> (heap \<times> 'w) option" where
  "clean_field n replaceWith onSanitize v s =
     (if \<not> falsy v
      then (case clean n replaceWith onSanitize v s of None \<Rightarrow> None | Some (v', s') \<Rightarrow> Some s')
      else Some s)"

definition mongoSanitize :: "nat \<Rightarrow> string \<Rightarrow> (string \<Rightarrow> 'w \<Rightarrow> 'w) option \<Rightarrow> sanitize_request
                               \<Rightarrow> heap \<times> 'w \<Rightarrow> (heap \<times> 'w) option" where
  "mongoSanitize n replaceWith onSanitize req s =
     (case clean_field n replaceWith onSanitize (req_body req) s of
        None \<Rightarrow> None
      | Some s1 \<Rightarrow>
          (case clean_field n replaceWith onSanitize (req_query req) s1 of
             None \<Rightarrow> None
           | Some s2 \<Rightarrow> clean_field n replaceWith onSanitize (req_params req) s2))"

subsection \<open>Notions used to state and prove the properties\<close>

text \<open>The values a cell holds, and the cells reachable from a value through the heap.\<close>

definition children :: "cell \<Rightarrow> val set" where
  "children c = (case c of Object ps \<Rightarrow> ran (map_of ps) | Array vs \<Rightarrow> set vs)"

inductive reachable :: "heap \<Rightarrow> val \<Rightarrow> nat \<Rightarrow> bool" for h :: heap where
  here: "a < length h \<Longrightarrow> reachable h (Ref a) a"
| step: "a < length h \<Longrightarrow> w \<in> children (h ! a) \<Longrightarrow> reachable h w b \<Longrightarrow> reachable h (Ref a) b"

text \<open>
  The invariant of the sanitizer.  \<open>S\<close> is a set of cells that are done or under way:
  every property of an object in \<open>S\<close> either is still waiting for its turn in that
  object's loop (\<open>pend\<close>) or has a key that is not forbidden and a value inside \<open>S\<close>, and
  the elements of an array in \<open>S\<close> are inside \<open>S\<close>.
\<close>

definition ok_val :: "nat set \<Rightarrow> val \<Rightarrow> bool" where
  "ok_val S v = (case v of Ref a \<Rightarrow> a \<in> S | _ \<Rightarrow> True)"

definition ok_cell :: "nat set \<Rightarrow> string set \<Rightarrow> cell \<Rightarrow> bool" where
  "ok_cell S P c =
     (case c of
        Object ps \<Rightarrow> (\<forall>k w. map_of ps k = Some w \<longrightarrow> k \<in> P \<or> (\<not> forbidden k \<and> ok_val S w))
      | Array vs \<Rightarrow> (\<forall>w \<in> set vs. ok_val S w))"

definition sanitized :: "heap \<Rightarrow> nat set \<Rightarrow> (nat \<Rightarrow> string set) \<Rightarrow> bool" where
  "sanitized h S pend = (\<forall>a \<in> S. a < length h \<and> ok_cell S (pend a) (h ! a))"

text \<open>
  \<open>h'\<close> has every object of \<open>h\<close> at the address it had in \<open>h\<close>, has the arrays of \<open>h\<close>
  unchanged, and has nothing new but arrays.
\<close>

definition same_objects :: "heap \<Rightarrow> heap \<Rightarrow> bool" where
  "same_objects h h' =
     (length h \<le> length h'
      \<and> (\<forall>b < length h. case h ! b of Object ps \<Rightarrow> (\<exists>ps'. h' ! b = Object ps')
                                     | Array vs \<Rightarrow> h' ! b = Array vs)
      \<and> (\<forall>b. length h \<le> b \<and> b < length h' \<longrightarrow> (\<exists>vs. h' ! b = Array vs)))"

text \<open>
  Acyclic heaps.  \<open>ranked h rk\<close>: every reference stored in a cell points to a cell of the
  heap, and to one of smaller rank.  A heap has such a ranking exactly when it has no
  dangling reference and no cycle, as the heap of a parsed body or query has.
  \<open>grows h rk m h' rk'\<close>: \<open>h'\<close> with ranking \<open>rk'\<close> extends \<open>h\<close> with ranking \<open>rk\<close>, and
  only cells of rank below \<open>m\<close> differ.
\<close>

definition cell_vals :: "cell \<Rightarrow> val set" where
  "cell_vals c = (case c of Object ps \<Rightarrow> snd ` set ps | Array vs \<Rightarrow> set vs)"

definition val_rank :: "(nat \<Rightarrow> nat) \<Rightarrow> val \<Rightarrow> nat" where
  "val_rank rk v = (case v of Ref a \<Rightarrow> Suc (rk a) | _ \<Rightarrow> 0)"

definition in_heap :: "heap \<Rightarrow> val \<Rightarrow> bool" where
  "in_heap h v = (case v of Ref a \<Rightarrow> a < length h | _ \<Rightarrow> True)"

definition ranked :: "heap \<Rightarrow> (nat \<Rightarrow> nat) \<Rightarrow> bool" where
  "ranked h rk = (\<forall>a < length h. \<forall>w \<in> cell_vals (h ! a). in_heap h w \<and> val_rank rk w \<le> rk a)"

definition grows :: "heap \<Rightarrow> (nat \<Rightarrow> nat) \<Rightarrow> nat \<Rightarrow> heap \<Rightarrow> (nat \<Rightarrow> nat) \<Rightarrow> bool" where
  "grows h rk m h' rk' =
     (length h \<le> length h' \<and> ranked h' rk'
      \<and> (\<forall>b < length h. rk' b = rk b)
      \<and> (\<forall>b < length h. m \<le> rk b \<longrightarrow> h' ! b = h ! b))"


section \<open>Properties of the CSRF guard\<close>

subsection \<open>The two branches\<close>

lemma safe_result:
  assumes "req_method req \<in> set safe_methods"
  shows "csrfProtection e req st =
           issue e (js_or_str (sessionID req)
                      (js_or_str (cookie_of req ''sessionId'') (generateToken2 e)))
             (generateToken1 e) st"
  using assms by (simp add: csrfProtection_def Let_def)

lemma unsafe_result:
  assumes "req_method req \<notin> set safe_methods"
  shows "csrfProtection e req st =
     (case (sessionId_of req, tokenFromRequest req) of
        (Some sid, Some cand) \<Rightarrow>
           if sid = [] \<or> cand = [] then reject csrf_missing st
           else (case st sid of
                   None \<Rightarrow> reject csrf_invalid st
                 | Some d \<Rightarrow> if token d \<noteq> cand then reject csrf_invalid st
                             else issue e sid (generateToken1 e) st)
      | _ \<Rightarrow> reject csrf_missing st)"
  using assms
  by (auto simp add: csrfProtection_def Let_def truthy_def split: option.splits)

lemma unsafe_outcome_Next:
  assumes "req_method req \<notin> set safe_methods"
  shows "outcome (csrfProtection e req st) = Next \<longleftrightarrow>
    (\<exists>sid cand d. sessionId_of req = Some sid \<and> sid \<noteq> [] \<and>
        tokenFromRequest req = Some cand \<and> cand \<noteq> [] \<and> st sid = Some d \<and> token d = cand)"
  by (auto simp: unsafe_result [OF assms] reject_def issue_def split: option.splits)

lemma rejected_cases:
  assumes "outcome (csrfProtection e req st) \<noteq> Next"
  shows "csrfProtection e req st = reject csrf_missing st
       \<or> csrfProtection e req st = reject csrf_invalid st"
proof (cases "req_method req \<in> set safe_methods")
  case True
  then show ?thesis using assms by (simp add: safe_result issue_def)
next
  case False
  then show ?thesis using assms
    by (auto simp: unsafe_result issue_def split: option.splits prod.splits if_splits)
qed

lemmas guard_defs =
  csrfProtection_def reject_def issue_def sessionId_of_def tokenFromRequest_def
  js_or_def js_or_str_def truthy_def cookie_of_def body_of_def safe_methods_def

subsection \<open>Expiry\<close>

lemma sweep_removes_expired:
  "st k = Some d \<Longrightarrow> expires d < t \<Longrightarrow> sweep t st k = None"
  by (simp add: sweep_def)

lemma sweep_keeps_live:
  "st k = Some d \<Longrightarrow> \<not> expires d < t \<Longrightarrow> sweep t st k = Some d"
  by (simp add: sweep_def)

text \<open>
  C1 (the code departs from the claim).  The claim: on an unsafe request whose session key
  has a stored record with \<open>expires < now\<close>, validating the matching token fails exactly
  as if the session had no record.  The validating branch of \<open>csrfProtection\<close> never reads
  \<open>expires\<close>: only the hourly sweep does.  So until the next sweep runs, a record whose
  expiry time has passed still validates its token (and is rotated), whereas the same
  request against a store without the record is rejected with \<open>Invalid CSRF token\<close>.
  The input below is a token issued at time 0 (expiring at 3600000), a sweep at 3500000
  that keeps it, and the token presented at 7000000, before the sweep that is due at
  7100000.
\<close>

theorem expired_record_still_validates:
  assumes "req_method req \<notin> {''GET'', ''HEAD'', ''OPTIONS''}"
    and "sessionId_of req = Some sid" and "sid \<noteq> []"
    and "st sid = Some d" and "expires d < now e"
    and "tokenFromRequest req = Some (token d)" and "token d \<noteq> []"
  shows "outcome (csrfProtection e req st) = Next
       \<and> outcome (csrfProtection e req (st(sid := None))) = NextError csrf_invalid"
proof -
  have u: "req_method req \<notin> set safe_methods" using assms(1) by (simp add: safe_methods_def)
  show ?thesis using assms(2-)
    by (simp add: unsafe_result [OF u] issue_def reject_def)
qed

theorem expired_record_still_validates_input:
  "outcome (csrfProtection
      \<lparr>now = 7000000, production = False, generateToken1 = ''T2'', generateToken2 = ''K2''\<rparr>
      \<lparr>req_method = ''POST'', sessionID = Some ''S3'', cookies = None, body = None,
       headers = [''x-csrf-token'' \<mapsto> ''T1''], xhr = False\<rparr>
      (run [Request
              \<lparr>now = 0, production = False, generateToken1 = ''T1'', generateToken2 = ''K1''\<rparr>
              \<lparr>req_method = ''GET'', sessionID = Some ''S3'', cookies = None, body = None,
               headers = Map.empty, xhr = False\<rparr>,
            Sweep 3500000]
         Map.empty)) = Next
   \<and> outcome (csrfProtection
      \<lparr>now = 7000000, production = False, generateToken1 = ''T2'', generateToken2 = ''K2''\<rparr>
      \<lparr>req_method = ''POST'', sessionID = Some ''S3'', cookies = None, body = None,
       headers = [''x-csrf-token'' \<mapsto> ''T1''], xhr = False\<rparr>
      ((run [Request
              \<lparr>now = 0, production = False, generateToken1 = ''T1'', generateToken2 = ''K1''\<rparr>
              \<lparr>req_method = ''GET'', sessionID = Some ''S3'', cookies = None, body = None,
               headers = Map.empty, xhr = False\<rparr>,
            Sweep 3500000]
         Map.empty)(''S3'' := None))) = NextError csrf_invalid"
  using expired_record_still_validates [of
      "\<lparr>req_method = ''POST'', sessionID = Some ''S3'', cookies = None, body = None,
        headers = [''x-csrf-token'' \<mapsto> ''T1''], xhr = False\<rparr>"
      "''S3''"
      "run [Request
              \<lparr>now = 0, production = False, generateToken1 = ''T1'', generateToken2 = ''K1''\<rparr>
              \<lparr>req_method = ''GET'', sessionID = Some ''S3'', cookies = None, body = None,
               headers = Map.empty, xhr = False\<rparr>,
            Sweep 3500000]
         Map.empty"
      "\<lparr>token = ''T1'', expires = 3600000\<rparr>"
      "\<lparr>now = 7000000, production = False, generateToken1 = ''T2'', generateToken2 = ''K2''\<rparr>"]
  by (simp add: guard_defs sweep_def one_hour_def Let_def)

subsection \<open>Rotation\<close>





subsection \<open>Safe requests\<close>

text \<open>
  C3.  A request whose method is GET, HEAD or OPTIONS always reaches \<open>next()\<close> without an
  error, whatever the store holds and whatever token it carries; the guard stores a newly
  generated token (with a one-hour expiry) under the session key --- \<open>req.sessionID\<close>, else
  the \<open>sessionId\<close> cookie, else a generated key --- and sets that same token as the
  \<open>csrf-token\<close> cookie and as \<open>res.locals.csrfToken\<close>.
\<close>

theorem safe_request_issues_token:
  assumes "req_method req \<in> {''GET'', ''HEAD'', ''OPTIONS''}"
  shows "outcome (csrfProtection e req st) = Next
       \<and> tokenStore (csrfProtection e req st)
           = st(js_or_str (sessionID req)
                  (js_or_str (cookie_of req ''sessionId'') (generateToken2 e))
                \<mapsto> \<lparr>token = generateToken1 e, expires = now e + 3600000\<rparr>)
       \<and> cookie (csrfProtection e req st)
           = Some (''csrf-token'', generateToken1 e,
               \<lparr>httpOnly = False, secure = production e, sameSite = ''strict'',
                maxAge = 3600000\<rparr>)
       \<and> locals_csrfToken (csrfProtection e req st) = Some (generateToken1 e)"
proof -
  have "req_method req \<in> set safe_methods" using assms by (auto simp: safe_methods_def)
  then show ?thesis
    by (simp add: safe_result issue_def csrf_cookie_options_def one_hour_def)
qed

theorem safe_request_issues_token_witness:
  "outcome (csrfProtection
      \<lparr>now = 1000, production = True, generateToken1 = ''aa11'', generateToken2 = ''bb22''\<rparr>
      \<lparr>req_method = ''HEAD'', sessionID = None,
       cookies = Some [''sessionId'' \<mapsto> ''S1'', ''csrf-token'' \<mapsto> ''junk''],
       body = None, headers = Map.empty, xhr = False\<rparr>
      [''S1'' \<mapsto> \<lparr>token = ''old'', expires = 5\<rparr>]) = Next
   \<and> tokenStore (csrfProtection
      \<lparr>now = 1000, production = True, generateToken1 = ''aa11'', generateToken2 = ''bb22''\<rparr>
      \<lparr>req_method = ''HEAD'', sessionID = None,
       cookies = Some [''sessionId'' \<mapsto> ''S1'', ''csrf-token'' \<mapsto> ''junk''],
       body = None, headers = Map.empty, xhr = False\<rparr>
      [''S1'' \<mapsto> \<lparr>token = ''old'', expires = 5\<rparr>]) ''S1''
       = Some \<lparr>token = ''aa11'', expires = 3601000\<rparr>"
  using safe_request_issues_token [of
      "\<lparr>req_method = ''HEAD'', sessionID = None,
        cookies = Some [''sessionId'' \<mapsto> ''S1'', ''csrf-token'' \<mapsto> ''junk''],
        body = None, headers = Map.empty, xhr = False\<rparr>"
      "\<lparr>now = 1000, production = True, generateToken1 = ''aa11'', generateToken2 = ''bb22''\<rparr>"
      "[''S1'' \<mapsto> \<lparr>token = ''old'', expires = 5\<rparr>]"]
  by (simp add: js_or_str_def cookie_of_def)

subsection \<open>Rejections\<close>

text \<open>
  C4.  An unsafe request (method other than GET, HEAD, OPTIONS) for which neither
  \<open>req.sessionID\<close> nor the \<open>sessionId\<close> cookie gives a session key (each is absent or the
  empty string) is rejected with \<open>CSRF token missing\<close>, whatever token it carries and
  whatever the store holds --- also when the token it carries is one the store holds.
\<close>

theorem missing_session_key_rejects:
  assumes "req_method req \<notin> {''GET'', ''HEAD'', ''OPTIONS''}"
    and "\<not> truthy (sessionID req)" and "\<not> truthy (cookie_of req ''sessionId'')"
  shows "outcome (csrfProtection e req st) = NextError csrf_missing"
proof -
  have "req_method req \<notin> set safe_methods" using assms(1) by (auto simp: safe_methods_def)
  moreover have "\<not> truthy (sessionId_of req)"
    using assms(2,3) by (simp add: sessionId_of_def js_or_def)
  ultimately show ?thesis
    by (auto simp: unsafe_result truthy_def reject_def split: option.splits)
qed

theorem missing_session_key_rejects_witness:
  "outcome (csrfProtection
      \<lparr>now = 1000, production = False, generateToken1 = ''aa11'', generateToken2 = ''bb22''\<rparr>
      \<lparr>req_method = ''POST'', sessionID = None, cookies = Some [''csrf-token'' \<mapsto> ''T1''],
       body = Some [''_csrf'' \<mapsto> ''T1''], headers = [''x-csrf-token'' \<mapsto> ''T1''],
       xhr = False\<rparr>
      [''S1'' \<mapsto> \<lparr>token = ''T1'', expires = 3601000\<rparr>]) = NextError csrf_missing"
  using missing_session_key_rejects [of
      "\<lparr>req_method = ''POST'', sessionID = None, cookies = Some [''csrf-token'' \<mapsto> ''T1''],
        body = Some [''_csrf'' \<mapsto> ''T1''], headers = [''x-csrf-token'' \<mapsto> ''T1''],
        xhr = False\<rparr>"
      "\<lparr>now = 1000, production = False, generateToken1 = ''aa11'', generateToken2 = ''bb22''\<rparr>"
      "[''S1'' \<mapsto> \<lparr>token = ''T1'', expires = 3601000\<rparr>]"]
  by (simp add: truthy_def cookie_of_def)

text \<open>
  C5.  On an unsafe request the candidate token is the body field \<open>_csrf\<close> when that is
  present, otherwise the header \<open>x-csrf-token\<close> when that is present, otherwise the cookie
  \<open>csrf-token\<close>; "present" is what \<open>||\<close> tests, a non-empty string.  Stated on what the
  guard does: for a session key with a stored record, the request passes exactly when the
  first present source, in that order, holds the stored token.  In particular a request
  whose only token is a matching \<open>_csrf\<close> body field passes.
\<close>

theorem candidate_token_priority:
  assumes "req_method req \<notin> {''GET'', ''HEAD'', ''OPTIONS''}"
    and "sessionId_of req = Some sid" and "sid \<noteq> []"
    and "st sid = Some d"
  shows "(outcome (csrfProtection e req st) = Next) =
           (if truthy (body_of req ''_csrf'')
              then body_of req ''_csrf'' = Some (token d)
            else if truthy (headers req ''x-csrf-token'')
              then headers req ''x-csrf-token'' = Some (token d)
            else truthy (cookie_of req ''csrf-token'')
                 \<and> cookie_of req ''csrf-token'' = Some (token d))"
proof -
  have u: "req_method req \<notin> set safe_methods" using assms(1) by (auto simp: safe_methods_def)
  show ?thesis
    using assms(2-)
    by (auto simp: unsafe_outcome_Next [OF u] tokenFromRequest_def js_or_def truthy_def
          split: option.splits)
qed

theorem candidate_token_priority_witness:
  "outcome (csrfProtection
      \<lparr>now = 1000, production = False, generateToken1 = ''T3'', generateToken2 = ''bb22''\<rparr>
      \<lparr>req_method = ''POST'', sessionID = Some ''S1'', cookies = None,
       body = Some [''_csrf'' \<mapsto> ''T2''], headers = Map.empty, xhr = False\<rparr>
      [''S1'' \<mapsto> \<lparr>token = ''T2'', expires = 3601000\<rparr>]) = Next
  \<and> outcome (csrfProtection
      \<lparr>now = 1000, production = False, generateToken1 = ''T3'', generateToken2 = ''bb22''\<rparr>
      \<lparr>req_method = ''POST'', sessionID = Some ''S1'', cookies = Some [''csrf-token'' \<mapsto> ''T2''],
       body = Some [''_csrf'' \<mapsto> ''bad''], headers = [''x-csrf-token'' \<mapsto> ''T2''],
       xhr = False\<rparr>
      [''S1'' \<mapsto> \<lparr>token = ''T2'', expires = 3601000\<rparr>]) \<noteq> Next"
  using candidate_token_priority [of
      "\<lparr>req_method = ''POST'', sessionID = Some ''S1'', cookies = None,
        body = Some [''_csrf'' \<mapsto> ''T2''], headers = Map.empty, xhr = False\<rparr>"
      "''S1''" "[''S1'' \<mapsto> \<lparr>token = ''T2'', expires = 3601000\<rparr>]"
      "\<lparr>token = ''T2'', expires = 3601000\<rparr>"
      "\<lparr>now = 1000, production = False, generateToken1 = ''T3'', generateToken2 = ''bb22''\<rparr>"]
    candidate_token_priority [of
      "\<lparr>req_method = ''POST'', sessionID = Some ''S1'', cookies = Some [''csrf-token'' \<mapsto> ''T2''],
        body = Some [''_csrf'' \<mapsto> ''bad''], headers = [''x-csrf-token'' \<mapsto> ''T2''],
        xhr = False\<rparr>"
      "''S1''" "[''S1'' \<mapsto> \<lparr>token = ''T2'', expires = 3601000\<rparr>]"
      "\<lparr>token = ''T2'', expires = 3601000\<rparr>"
      "\<lparr>now = 1000, production = False, generateToken1 = ''T3'', generateToken2 = ''bb22''\<rparr>"]
  by (simp add: sessionId_of_def js_or_def truthy_def body_of_def cookie_of_def)

text \<open>
  C6.  Validation compares the candidate with the stored token by \<open>!==\<close> on strings and
  nothing else: for a session key with a stored record, an unsafe request passes exactly
  when its candidate is the very string stored (and key and candidate are non-empty).  A
  candidate that differs in any character, be it only in letter case, is rejected; nothing
  is normalised before the comparison.
\<close>

theorem exact_match_only:
  assumes "req_method req \<notin> {''GET'', ''HEAD'', ''OPTIONS''}"
    and "sessionId_of req = Some sid"
    and "st sid = Some d"
    and "tokenFromRequest req = Some cand"
  shows "(outcome (csrfProtection e req st) = Next) = (sid \<noteq> [] \<and> cand \<noteq> [] \<and> cand = token d)
       \<and> (cand \<noteq> token d \<longrightarrow> (\<exists>err. outcome (csrfProtection e req st) = NextError err))"
proof -
  have u: "req_method req \<notin> set safe_methods" using assms(1) by (auto simp: safe_methods_def)
  have "(outcome (csrfProtection e req st) = Next) = (sid \<noteq> [] \<and> cand \<noteq> [] \<and> cand = token d)"
    using assms(2-) by (auto simp: unsafe_outcome_Next [OF u])
  moreover have "cand \<noteq> token d \<longrightarrow> (\<exists>err. outcome (csrfProtection e req st) = NextError err)"
    using assms(2-) by (auto simp: unsafe_result [OF u] reject_def)
  ultimately show ?thesis by blast
qed

theorem exact_match_only_witness:
  "outcome (csrfProtection
      \<lparr>now = 1000, production = False, generateToken1 = ''T3'', generateToken2 = ''bb22''\<rparr>
      \<lparr>req_method = ''POST'', sessionID = Some ''S1'', cookies = None, body = None,
       headers = [''x-csrf-token'' \<mapsto> ''AB12CD''], xhr = False\<rparr>
      [''S1'' \<mapsto> \<lparr>token = ''ab12cd'', expires = 3601000\<rparr>]) \<noteq> Next
   \<and> (\<exists>err. outcome (csrfProtection
      \<lparr>now = 1000, production = False, generateToken1 = ''T3'', generateToken2 = ''bb22''\<rparr>
      \<lparr>req_method = ''POST'', sessionID = Some ''S1'', cookies = None, body = None,
       headers = [''x-csrf-token'' \<mapsto> ''AB12CD''], xhr = False\<rparr>
      [''S1'' \<mapsto> \<lparr>token = ''ab12cd'', expires = 3601000\<rparr>]) = NextError err)"
  using exact_match_only [of
      "\<lparr>req_method = ''POST'', sessionID = Some ''S1'', cookies = None, body = None,
        headers = [''x-csrf-token'' \<mapsto> ''AB12CD''], xhr = False\<rparr>"
      "''S1''" "[''S1'' \<mapsto> \<lparr>token = ''ab12cd'', expires = 3601000\<rparr>]"
      "\<lparr>token = ''ab12cd'', expires = 3601000\<rparr>" "''AB12CD''"
      "\<lparr>now = 1000, production = False, generateToken1 = ''T3'', generateToken2 = ''bb22''\<rparr>"]
  by (simp add: sessionId_of_def tokenFromRequest_def js_or_def truthy_def body_of_def
        cookie_of_def)

text \<open>
  C7.  Every validation failure on an unsafe request gets the same kind of error.  An
  unsafe request passes only if it has a session key, has a candidate token, the session
  has a stored record and the candidate is the stored token; whenever one of the four is
  not so --- key missing, token missing, no record, or mismatch --- the guard hands \<open>next\<close>
  an error whose \<open>code\<close> is \<open>EBADCSRFTOKEN\<close> and whose \<open>statusCode\<close> is 403.  The two
  kinds of failure differ in neither, and \<open>csrfErrorHandler\<close> answers both with the same
  403 response, chosen from the request alone.
\<close>

theorem rejection_is_EBADCSRFTOKEN_403:
  assumes "req_method req \<notin> {''GET'', ''HEAD'', ''OPTIONS''}"
    and "\<not> (\<exists>sid cand d. sessionId_of req = Some sid \<and> sid \<noteq> [] \<and>
              tokenFromRequest req = Some cand \<and> cand \<noteq> [] \<and>
              st sid = Some d \<and> token d = cand)"
  shows "\<exists>err. outcome (csrfProtection e req st) = NextError err
       \<and> code err = ''EBADCSRFTOKEN'' \<and> statusCode err = 403
       \<and> csrfErrorHandler err r =
           (if xhr r \<or> accepts_json r
            then JsonResponse 403 ''error''
                   ''Invalid or missing CSRF token. Please refresh the page and try again.''
            else Rendered 403 ''errors/403'' ''Forbidden''
                   ''Invalid security token. Please go back and try again.'')"
proof -
  have u: "req_method req \<notin> set safe_methods" using assms(1) by (simp add: safe_methods_def)
  from assms(2) have "outcome (csrfProtection e req st) \<noteq> Next"
    by (simp only: unsafe_outcome_Next [OF u] not_False_eq_True)
  from rejected_cases [OF this] obtain err
    where out: "outcome (csrfProtection e req st) = NextError err"
      and err: "err = csrf_missing \<or> err = csrf_invalid"
    by (auto simp: reject_def)
  from err have "code err = ''EBADCSRFTOKEN''" and "statusCode err = 403"
    by (auto simp: csrf_missing_def csrf_invalid_def)
  with out show ?thesis
    by (intro exI [of _ err]) (simp add: csrfErrorHandler_def)
qed

theorem rejection_is_EBADCSRFTOKEN_403_witness:
  "(\<exists>err. outcome (csrfProtection
      \<lparr>now = 1000, production = False, generateToken1 = ''T3'', generateToken2 = ''bb22''\<rparr>
      \<lparr>req_method = ''DELETE'', sessionID = Some ''S2'', cookies = None, body = None,
       headers = [''x-csrf-token'' \<mapsto> ''T1'', ''accept'' \<mapsto> ''text/html, application/json''],
       xhr = False\<rparr>
      Map.empty) = NextError err
    \<and> code err = ''EBADCSRFTOKEN'' \<and> statusCode err = 403
    \<and> csrfErrorHandler err
        \<lparr>req_method = ''DELETE'', sessionID = Some ''S2'', cookies = None, body = None,
         headers = [''x-csrf-token'' \<mapsto> ''T1'', ''accept'' \<mapsto> ''text/html, application/json''],
         xhr = False\<rparr>
        = JsonResponse 403 ''error''
            ''Invalid or missing CSRF token. Please refresh the page and try again.'')"
  using rejection_is_EBADCSRFTOKEN_403 [of
      "\<lparr>req_method = ''DELETE'', sessionID = Some ''S2'', cookies = None, body = None,
        headers = [''x-csrf-token'' \<mapsto> ''T1'', ''accept'' \<mapsto> ''text/html, application/json''],
        xhr = False\<rparr>"
      Map.empty
      "\<lparr>now = 1000, production = False, generateToken1 = ''T3'', generateToken2 = ''bb22''\<rparr>"
      "\<lparr>req_method = ''DELETE'', sessionID = Some ''S2'', cookies = None, body = None,
        headers = [''x-csrf-token'' \<mapsto> ''T1'', ''accept'' \<mapsto> ''text/html, application/json''],
        xhr = False\<rparr>"]
  by (simp add: accepts_json_def)

text \<open>
  C9.  A rejection is atomic: whenever the guard does not let a request through (missing
  session key, missing token, no stored record, or a mismatch), the token store is exactly
  what it was before the request, no \<open>csrf-token\<close> cookie is set and
  \<open>res.locals.csrfToken\<close> is not assigned.
\<close>

theorem rejection_leaves_no_trace:
  assumes "outcome (csrfProtection e req st) \<noteq> Next"
  shows "tokenStore (csrfProtection e req st) = st
       \<and> cookie (csrfProtection e req st) = None
       \<and> locals_csrfToken (csrfProtection e req st) = None"
  using rejected_cases [OF assms] by (auto simp: reject_def)

theorem rejection_leaves_no_trace_witness:
  "tokenStore (csrfProtection
      \<lparr>now = 1000, production = False, generateToken1 = ''T3'', generateToken2 = ''bb22''\<rparr>
      \<lparr>req_method = ''POST'', sessionID = Some ''S1'', cookies = None, body = None,
       headers = [''x-csrf-token'' \<mapsto> ''wrong''], xhr = False\<rparr>
      [''S1'' \<mapsto> \<lparr>token = ''T1'', expires = 3601000\<rparr>])
     = [''S1'' \<mapsto> \<lparr>token = ''T1'', expires = 3601000\<rparr>]
   \<and> cookie (csrfProtection
      \<lparr>now = 1000, production = False, generateToken1 = ''T3'', generateToken2 = ''bb22''\<rparr>
      \<lparr>req_method = ''POST'', sessionID = Some ''S1'', cookies = None, body = None,
       headers = [''x-csrf-token'' \<mapsto> ''wrong''], xhr = False\<rparr>
      [''S1'' \<mapsto> \<lparr>token = ''T1'', expires = 3601000\<rparr>]) = None"
proof -
  have "outcome (csrfProtection
      \<lparr>now = 1000, production = False, generateToken1 = ''T3'', generateToken2 = ''bb22''\<rparr>
      \<lparr>req_method = ''POST'', sessionID = Some ''S1'', cookies = None, body = None,
       headers = [''x-csrf-token'' \<mapsto> ''wrong''], xhr = False\<rparr>
      [''S1'' \<mapsto> \<lparr>token = ''T1'', expires = 3601000\<rparr>]) \<noteq> Next"
    by (simp add: guard_defs)
  from rejection_leaves_no_trace [OF this] show ?thesis by simp
qed

section \<open>Properties of the key sanitizer\<close>

subsection \<open>Objects as maps\<close>

text \<open>
  The property list of an object is read as the map from keys to values it stands for.
\<close>

lemma map_of_obj_set: "map_of (obj_set k v ps) = (map_of ps)(k \<mapsto> v)"
  by (induction ps) (auto simp: fun_eq_iff)

lemma map_of_obj_delete: "map_of (obj_delete k ps) = (map_of ps)(k := None)"
  by (induction ps) (auto simp: obj_delete_def fun_eq_iff)

lemma has_own_iff: "has_own ps k \<longleftrightarrow> map_of ps k \<noteq> None"
  by (simp add: has_own_def map_of_eq_None_iff)



lemma lookup_Some: "lookup h a = Some c \<longleftrightarrow> a < length h \<and> h ! a = c"
  by (auto simp: lookup_def)

subsection \<open>Replacing with the default character\<close>

text \<open>
  With \<open>replaceWith = '_'\<close> the replaced key has no \<open>.\<close> left and does not begin with \<open>$\<close>.
\<close>

lemma substitution_single: "substitution [c] m pre post = [c]"
  by simp

lemma replace_from_no_dot:
  "CHR ''.'' \<notin> set (replace_from ''_'' key pos cs)"
  by (induction cs arbitrary: pos) auto

lemma replace_from_no_dollar_start:
  "\<not> startsWith_dollar (replace_from ''_'' key 0 cs)"
  by (cases cs) (auto simp: startsWith_dollar_def)

lemma replace_key_underscore_ok: "\<not> forbidden (replace_key k ''_'')"
  by (simp add: forbidden_def replace_key_def includes_dot_def replace_from_no_dot
        replace_from_no_dollar_start)

subsection \<open>Unfolding clean\<close>

text \<open>
  One call of \<open>clean\<close>, by the kind of value it is given.
\<close>

lemma not_object_value: "falsy v \<or> typeof v \<noteq> ''object'' \<longleftrightarrow> (\<forall>a. v \<noteq> Ref a)"
  by (cases v) (auto simp: falsy_def typeof_def)

lemma clean_Suc_Ref:
  "clean (Suc n) rw cb (Ref a) s =
     (case lookup (fst s) a of
        None \<Rightarrow> None
      | Some (Array vs) \<Rightarrow>
          (case map_elems (clean n rw cb) vs s of
             None \<Rightarrow> None
           | Some (vs', h', w') \<Rightarrow> Some (Ref (length h'), h' @ [Array vs'], w'))
      | Some (Object ps) \<Rightarrow>
          (case for_in (clean n rw cb) rw cb a (map fst ps) s of
             None \<Rightarrow> None
           | Some s' \<Rightarrow> Some (Ref a, s')))"
  by (simp add: falsy_def typeof_def)

lemma clean_Suc_other: "\<forall>a. v \<noteq> Ref a \<Longrightarrow> clean (Suc n) rw cb v s = Some (v, s)"
  by (cases v) (simp_all add: falsy_def typeof_def)

subsection \<open>Objects stay where they are\<close>

text \<open>
  Neither the loop over the keys nor the mapping over the elements moves an object:
  \<open>same_objects\<close> holds between the heap before a call of \<open>clean\<close> and the heap after it.
\<close>

lemma same_objects_refl: "same_objects h h"
  by (auto simp: same_objects_def split: cell.splits)

lemma same_objects_trans:
  assumes "same_objects h1 h2" and "same_objects h2 h3"
  shows "same_objects h1 h3"
  unfolding same_objects_def
proof (intro conjI allI impI)
  show "length h1 \<le> length h3" using assms by (auto simp: same_objects_def)
next
  fix b assume b: "b < length h1"
  then have b2: "b < length h2" using assms(1) by (auto simp: same_objects_def)
  show "case h1 ! b of Object ps \<Rightarrow> \<exists>ps'. h3 ! b = Object ps' | Array vs \<Rightarrow> h3 ! b = Array vs"
  proof (cases "h1 ! b")
    case (Object ps)
    with assms(1) b obtain ps2 where "h2 ! b = Object ps2"
      by (fastforce simp: same_objects_def)
    with assms(2) b2 obtain ps3 where "h3 ! b = Object ps3"
      by (fastforce simp: same_objects_def)
    with Object show ?thesis by simp
  next
    case (Array vs)
    with assms(1) b have "h2 ! b = Array vs"
      by (fastforce simp: same_objects_def)
    with assms(2) b2 have "h3 ! b = Array vs"
      by (fastforce simp: same_objects_def)
    with Array show ?thesis by simp
  qed
next
  fix b assume b: "length h1 \<le> b \<and> b < length h3"
  show "\<exists>vs. h3 ! b = Array vs"
  proof (cases "b < length h2")
    case True
    with b assms(1) obtain vs where "h2 ! b = Array vs"
      by (auto simp: same_objects_def)
    with assms(2) True have "h3 ! b = Array vs"
      by (fastforce simp: same_objects_def)
    then show ?thesis by blast
  next
    case False
    with b assms(2) show ?thesis by (auto simp: same_objects_def)
  qed
qed

lemma same_objects_update:
  assumes "lookup h a = Some (Object ps)"
  shows "same_objects h (h[a := Object ps'])"
  using assms
  by (auto simp: same_objects_def lookup_Some nth_list_update split: cell.splits)

lemma same_objects_append: "same_objects h (h @ [Array vs])"
  by (auto simp: same_objects_def nth_append split: cell.splits)

lemma for_in_same_objects:
  assumes rec: "\<And>v s v' s'. rec v s = Some (v', s') \<Longrightarrow> same_objects (fst s) (fst s')"
  shows "for_in rec rw cb a keys s = Some s' \<Longrightarrow> same_objects (fst s) (fst s')"
proof (induction keys arbitrary: s)
  case Nil
  then show ?case by (simp add: same_objects_refl)
next
  case (Cons key keys)
  from Cons.prems obtain ps where ps: "lookup (fst s) a = Some (Object ps)"
    by (auto split: option.splits cell.splits)
  show ?case
  proof (cases "has_own ps key")
    case False
    with Cons.prems ps have "for_in rec rw cb a keys s = Some s'" by simp
    then show ?thesis by (rule Cons.IH)
  next
    case True
    with Cons.prems ps obtain cv h1 w1 ps1
      where r: "rec (obj_get ps key) (fst s, report cb key (snd s)) = Some (cv, h1, w1)"
        and ps1: "lookup h1 a = Some (Object ps1)"
        and run: "for_in rec rw cb a keys (h1[a := Object (assign_back key rw cv ps1)], w1) = Some s'"
      by (auto split: option.splits cell.splits)
    from rec [OF r] have "same_objects (fst s) h1" by simp
    moreover from ps1 have "same_objects h1 (h1[a := Object (assign_back key rw cv ps1)])"
      by (rule same_objects_update)
    moreover from Cons.IH [OF run]
    have "same_objects (h1[a := Object (assign_back key rw cv ps1)]) (fst s')" by simp
    ultimately show ?thesis by (blast intro: same_objects_trans)
  qed
qed

lemma map_elems_same_objects:
  assumes rec: "\<And>v s v' s'. rec v s = Some (v', s') \<Longrightarrow> same_objects (fst s) (fst s')"
  shows "map_elems rec vs s = Some (vs', s') \<Longrightarrow> same_objects (fst s) (fst s')"
proof (induction vs arbitrary: s vs')
  case Nil
  then show ?case by (simp add: same_objects_refl)
next
  case (Cons v vs)
  from Cons.prems obtain v1 s1 vs1
    where r: "rec v s = Some (v1, s1)" and m: "map_elems rec vs s1 = Some (vs1, s')"
    by (auto split: option.splits)
  from rec [OF r] Cons.IH [OF m] show ?case by (rule same_objects_trans)
qed

lemma clean_same_objects:
  "clean n rw cb v s = Some (v', s') \<Longrightarrow> same_objects (fst s) (fst s')"
proof (induction n arbitrary: v s v' s')
  case 0
  then show ?case by simp
next
  case (Suc n)
  have IH: "\<And>v s v' s'. clean n rw cb v s = Some (v', s') \<Longrightarrow> same_objects (fst s) (fst s')"
    by (rule Suc.IH)
  show ?case
  proof (cases "\<exists>a. v = Ref a")
    case False
    then have "clean (Suc n) rw cb v s = Some (v, s)" by (intro clean_Suc_other) simp
    with Suc.prems show ?thesis by (simp add: same_objects_refl)
  next
    case True
    then obtain a where Ref: "v = Ref a" by blast
    note run = Suc.prems [unfolded Ref clean_Suc_Ref]
    from run obtain c where c: "lookup (fst s) a = Some c"
      by (cases "lookup (fst s) a") simp_all
    show ?thesis
    proof (cases c)
      case (Array vs)
      with run c have run':
        "(case map_elems (clean n rw cb) vs s of
            None \<Rightarrow> None
          | Some (vs', h', w') \<Rightarrow> Some (Ref (length h'), h' @ [Array vs'], w')) = Some (v', s')"
        by simp
      then obtain r where r: "map_elems (clean n rw cb) vs s = Some r"
        by (cases "map_elems (clean n rw cb) vs s") simp_all
      obtain vs' h' w' where "r = (vs', h', w')" by (cases r)
      with r have m: "map_elems (clean n rw cb) vs s = Some (vs', h', w')" by simp
      with run' have res: "s' = (h' @ [Array vs'], w')" by simp
      from IH m have "same_objects (fst s) (fst (h', w'))" by (rule map_elems_same_objects)
      then have "same_objects (fst s) h'" by simp
      then have "same_objects (fst s) (h' @ [Array vs'])"
        using same_objects_append by (rule same_objects_trans)
      then show ?thesis by (simp add: res)
    next
      case (Object ps)
      with run c have f: "for_in (clean n rw cb) rw cb a (map fst ps) s = Some s'"
        by (simp_all split: option.splits)
      from IH f show ?thesis by (rule for_in_same_objects)
    qed
  qed
qed


lemma clean_copies_array:
  assumes "clean n rw cb (Ref a) s = Some (v', s')" and "lookup (fst s) a = Some (Array vs)"
  shows "\<exists>b vs'. v' = Ref b \<and> length (fst s) \<le> b \<and> lookup (fst s') b = Some (Array vs')
           \<and> length vs' = length vs \<and> lookup (fst s') a = Some (Array vs)"
proof (cases n)
  case 0
  with assms show ?thesis by simp
next
  case (Suc m)
  note run = assms(1) [unfolded Suc clean_Suc_Ref]
  with assms(2) have run':
    "(case map_elems (clean m rw cb) vs s of
        None \<Rightarrow> None
      | Some (vs', h', w') \<Rightarrow> Some (Ref (length h'), h' @ [Array vs'], w')) = Some (v', s')"
    by simp
  then obtain r where r: "map_elems (clean m rw cb) vs s = Some r"
    by (cases "map_elems (clean m rw cb) vs s") simp_all
  obtain vs' h' w' where "r = (vs', h', w')" by (cases r)
  with r have m: "map_elems (clean m rw cb) vs s = Some (vs', h', w')" by simp
  with run' have res: "v' = Ref (length h')" "s' = (h' @ [Array vs'], w')" by simp_all
  have "same_objects (fst s) (fst (h', w'))"
    using clean_same_objects m by (rule map_elems_same_objects)
  then have so: "same_objects (fst s) h'" by simp
  then have len: "length (fst s) \<le> length h'" by (simp add: same_objects_def)
  from assms(2) have a: "a < length (fst s)" "fst s ! a = Array vs" by (simp_all add: lookup_Some)
  with so have "h' ! a = Array vs" by (fastforce simp: same_objects_def)
  with a len have old: "lookup (fst s') a = Some (Array vs)"
    by (simp add: res lookup_Some nth_append)
  have "length vs' = length vs" using m
    by (induction vs arbitrary: s vs') (auto split: option.splits)
  with res len old show ?thesis by (simp add: lookup_Some)
qed




subsection \<open>The invariant is kept\<close>

text \<open>
  Every step of \<open>clean\<close> keeps \<open>sanitized\<close> and only ever enlarges the set of finished
  cells; at the end the value returned and the value given are inside that set.
\<close>

lemma ok_val_mono: "ok_val S v \<Longrightarrow> S \<subseteq> S' \<Longrightarrow> ok_val S' v"
  by (auto simp: ok_val_def split: val.splits)

lemma ok_cell_mono: "ok_cell S P c \<Longrightarrow> S \<subseteq> S' \<Longrightarrow> P \<subseteq> P' \<Longrightarrow> ok_cell S' P' c"
  unfolding ok_cell_def by (cases c) (auto intro: ok_val_mono, blast intro: ok_val_mono)

lemma sanitized_mono:
  "sanitized h S pend \<Longrightarrow> (\<And>a. pend a \<subseteq> pend' a) \<Longrightarrow> sanitized h S pend'"
  unfolding sanitized_def by (blast intro: ok_cell_mono)

lemma ok_cell_Object:
  "ok_cell S P (Object ps) \<longleftrightarrow>
     (\<forall>k w. map_of ps k = Some w \<longrightarrow> k \<in> P \<or> (\<not> forbidden k \<and> ok_val S w))"
  by (simp add: ok_cell_def)

lemma assign_back_ok:
  assumes rwok: "\<not> forbidden (replace_key key rw)"
    and cell: "ok_cell S (insert key P) (Object ps1)"
    and cv: "ok_val S cv"
  shows "ok_cell S P (Object (assign_back key rw cv ps1))"
  unfolding ok_cell_Object
proof (intro allI impI)
  fix k w
  assume kw: "map_of (assign_back key rw cv ps1) k = Some w"
  from cell have old: "\<And>k w. map_of ps1 k = Some w \<Longrightarrow> k \<noteq> key
                         \<Longrightarrow> k \<in> P \<or> (\<not> forbidden k \<and> ok_val S w)"
    unfolding ok_cell_Object by blast
  show "k \<in> P \<or> (\<not> forbidden k \<and> ok_val S w)"
  proof (cases "forbidden key")
    case True
    with kw have m: "(((map_of ps1)(key := None))(replace_key key rw \<mapsto> cv)) k = Some w"
      by (simp add: assign_back_def map_of_obj_set map_of_obj_delete)
    show ?thesis
    proof (cases "k = replace_key key rw")
      case True
      with m have "w = cv" by simp
      with True rwok cv show ?thesis by simp
    next
      case False
      with m have "k \<noteq> key" and "map_of ps1 k = Some w"
        by (auto split: if_splits)
      then show ?thesis using old by blast
    qed
  next
    case nf: False
    show ?thesis
    proof (cases "k = key")
      case True
      have "w = cv"
      proof (cases "obj_get ps1 key = cv")
        case True
        with nf kw \<open>k = key\<close> show ?thesis
          by (simp add: assign_back_def obj_get_def)
      next
        case False
        with nf kw \<open>k = key\<close> show ?thesis
          by (simp add: assign_back_def map_of_obj_set)
      qed
      with True nf cv show ?thesis by simp
    next
      case False
      with nf kw have "map_of ps1 k = Some w"
        by (auto simp: assign_back_def map_of_obj_set split: if_splits)
      with False show ?thesis using old by blast
    qed
  qed
qed

lemma sanitized_update:
  assumes inv: "sanitized h S (pend(a := insert key (pend a)))"
    and a: "a \<in> S" and cell: "ok_cell S (pend a) c"
  shows "sanitized (h[a := c]) S pend"
  unfolding sanitized_def
proof
  fix b assume b: "b \<in> S"
  with inv have lt: "b < length h" and ok: "ok_cell S ((pend(a := insert key (pend a))) b) (h ! b)"
    by (auto simp: sanitized_def)
  show "b < length (h[a := c]) \<and> ok_cell S (pend b) (h[a := c] ! b)"
  proof (cases "b = a")
    case True
    then show ?thesis using lt cell by simp
  next
    case False
    then show ?thesis using lt ok by simp
  qed
qed

lemma for_in_sanitized:
  assumes rec: "\<And>v s v' s' S pend. rec v s = Some (v', s') \<Longrightarrow> sanitized (fst s) S pend
                  \<Longrightarrow> \<exists>S'. S \<subseteq> S' \<and> sanitized (fst s') S' pend \<and> ok_val S' v'"
    and rwok: "\<And>k. \<not> forbidden (replace_key k rw)"
  shows "for_in rec rw cb a keys s = Some s' \<Longrightarrow> a \<in> S
           \<Longrightarrow> sanitized (fst s) S (pend(a := pend a \<union> set keys))
           \<Longrightarrow> \<exists>S'. S \<subseteq> S' \<and> sanitized (fst s') S' pend"
proof (induction keys arbitrary: s S)
  case Nil
  then show ?case by (auto simp: fun_upd_idem)
next
  case (Cons key keys)
  from Cons.prems(1) obtain ps where ps: "lookup (fst s) a = Some (Object ps)"
    by (auto split: option.splits cell.splits)
  then have a_lt: "a < length (fst s)" and a_cell: "fst s ! a = Object ps"
    by (auto simp: lookup_Some)
  show ?case
  proof (cases "has_own ps key")
    case False
    then have run: "for_in rec rw cb a keys s = Some s'"
      using Cons.prems(1) ps by simp
    have "sanitized (fst s) S (pend(a := pend a \<union> set keys))"
      unfolding sanitized_def
    proof
      fix b assume b: "b \<in> S"
      with Cons.prems(3) have lt: "b < length (fst s)"
        and ok: "ok_cell S ((pend(a := pend a \<union> set (key # keys))) b) (fst s ! b)"
        by (auto simp: sanitized_def)
      show "b < length (fst s) \<and> ok_cell S ((pend(a := pend a \<union> set keys)) b) (fst s ! b)"
      proof (cases "b = a")
        case True
        have "ok_cell S (pend a \<union> set keys) (Object ps)"
          unfolding ok_cell_Object
        proof (intro allI impI)
          fix k w assume kw: "map_of ps k = Some w"
          with False have "k \<noteq> key" by (auto simp: has_own_iff)
          moreover from ok True a_cell kw
          have "k \<in> pend a \<union> set (key # keys) \<or> (\<not> forbidden k \<and> ok_val S w)"
            by (simp add: ok_cell_Object)
          ultimately show "k \<in> pend a \<union> set keys \<or> (\<not> forbidden k \<and> ok_val S w)"
            by auto
        qed
        then show ?thesis using lt a_cell True by simp
      next
        case False
        then show ?thesis using lt ok by simp
      qed
    qed
    from Cons.IH [OF run Cons.prems(2) this] show ?thesis .
  next
    case True
    with Cons.prems(1) ps obtain cv h1 w1 ps1
      where r: "rec (obj_get ps key) (fst s, report cb key (snd s)) = Some (cv, h1, w1)"
        and ps1: "lookup h1 a = Some (Object ps1)"
        and run: "for_in rec rw cb a keys (h1[a := Object (assign_back key rw cv ps1)], w1) = Some s'"
      by (auto split: option.splits cell.splits)
    have "sanitized (fst (fst s, report cb key (snd s))) S (pend(a := pend a \<union> set (key # keys)))"
      using Cons.prems(3) by (simp only: fst_conv)
    from rec [OF r this]
    obtain S1 where S1: "S \<subseteq> S1"
      and inv1': "sanitized (fst (h1, w1)) S1 (pend(a := pend a \<union> set (key # keys)))"
      and cv: "ok_val S1 cv"
      by blast
    from inv1' have inv1: "sanitized h1 S1 (pend(a := pend a \<union> set (key # keys)))"
      by (simp only: fst_conv)
    have a1: "a \<in> S1" using S1 Cons.prems(2) by auto
    from ps1 have a1_lt: "a < length h1" and a1_cell: "h1 ! a = Object ps1"
      by (auto simp: lookup_Some)
    let ?pend = "pend(a := pend a \<union> set keys)"
    have inv2: "sanitized h1 S1 (?pend(a := insert key (?pend a)))"
      using inv1 by simp
    have "ok_cell S1 (insert key (?pend a)) (Object ps1)"
      using inv1 a1 a1_cell by (auto simp: sanitized_def)
    then have "ok_cell S1 (?pend a) (Object (assign_back key rw cv ps1))"
      using rwok cv by (intro assign_back_ok)
    from sanitized_update [OF inv2 a1 this]
    have "sanitized (fst (h1[a := Object (assign_back key rw cv ps1)], w1)) S1 ?pend"
      by (simp only: fst_conv)
    from Cons.IH [OF run a1 this] S1 show ?thesis by auto
  qed
qed

lemma map_elems_sanitized:
  assumes rec: "\<And>v s v' s' S. rec v s = Some (v', s') \<Longrightarrow> sanitized (fst s) S pend
                  \<Longrightarrow> \<exists>S'. S \<subseteq> S' \<and> sanitized (fst s') S' pend \<and> ok_val S' v' \<and> ok_val S' v"
  shows "map_elems rec vs s = Some (vs', s') \<Longrightarrow> sanitized (fst s) S pend
           \<Longrightarrow> \<exists>S'. S \<subseteq> S' \<and> sanitized (fst s') S' pend
                  \<and> (\<forall>w \<in> set vs'. ok_val S' w) \<and> (\<forall>w \<in> set vs. ok_val S' w)"
proof (induction vs arbitrary: s S vs')
  case Nil
  then show ?case by auto
next
  case (Cons v vs)
  from Cons.prems(1) obtain v1 s1 vs1
    where r: "rec v s = Some (v1, s1)" and m: "map_elems rec vs s1 = Some (vs1, s')"
      and vs': "vs' = v1 # vs1"
    by (auto split: option.splits)
  from rec [OF r Cons.prems(2)] obtain S1
    where S1: "S \<subseteq> S1" "sanitized (fst s1) S1 pend" "ok_val S1 v1" "ok_val S1 v" by auto
  from Cons.IH [OF m S1(2)] obtain S2
    where S2: "S1 \<subseteq> S2" "sanitized (fst s') S2 pend" "\<forall>w \<in> set vs1. ok_val S2 w"
      "\<forall>w \<in> set vs. ok_val S2 w"
    by auto
  have "ok_val S2 v1" "ok_val S2 v" using S1(3,4) S2(1) by (auto intro: ok_val_mono)
  with S1 S2 vs' show ?case by (intro exI [of _ S2]) auto
qed

lemma sanitized_insert_array:
  assumes "sanitized h S pend" and "a < length h" and "h ! a = Array vs"
    and "\<forall>w \<in> set vs. ok_val S w"
  shows "sanitized h (insert a S) pend"
  unfolding sanitized_def
proof
  fix b assume b: "b \<in> insert a S"
  show "b < length h \<and> ok_cell (insert a S) (pend b) (h ! b)"
  proof (cases "b = a")
    case True
    have "ok_cell (insert a S) (pend a) (Array vs)"
      using assms(4) by (auto simp: ok_cell_def intro: ok_val_mono)
    with True assms(2,3) show ?thesis by simp
  next
    case False
    with b assms(1) have "b < length h" and "ok_cell S (pend b) (h ! b)"
      by (auto simp: sanitized_def)
    then show ?thesis by (auto intro: ok_cell_mono)
  qed
qed

lemma sanitized_insert_object:
  assumes "sanitized h S pend" and "a < length h" and "h ! a = Object ps"
  shows "sanitized h (insert a S) (pend(a := pend a \<union> set (map fst ps)))"
  unfolding sanitized_def
proof
  fix b assume b: "b \<in> insert a S"
  show "b < length h
        \<and> ok_cell (insert a S) ((pend(a := pend a \<union> set (map fst ps))) b) (h ! b)"
  proof (cases "b = a")
    case True
    have "ok_cell (insert a S) (pend a \<union> set (map fst ps)) (Object ps)"
      unfolding ok_cell_Object
      by (auto dest!: map_of_SomeD intro: rev_image_eqI)
    with True assms(2,3) show ?thesis by simp
  next
    case False
    with b assms(1) have "b < length h" and "ok_cell S (pend b) (h ! b)"
      by (auto simp: sanitized_def)
    then show ?thesis using False by (auto intro: ok_cell_mono)
  qed
qed

lemma sanitized_append_array:
  assumes "sanitized h S pend" and "\<forall>w \<in> set vs. ok_val S w"
  shows "sanitized (h @ [Array vs]) (insert (length h) S) pend"
  unfolding sanitized_def
proof
  fix b assume b: "b \<in> insert (length h) S"
  show "b < length (h @ [Array vs]) \<and> ok_cell (insert (length h) S) (pend b) ((h @ [Array vs]) ! b)"
  proof (cases "b = length h")
    case True
    have "ok_cell (insert (length h) S) (pend b) (Array vs)"
      using assms(2) by (auto simp: ok_cell_def intro: ok_val_mono)
    with True show ?thesis by simp
  next
    case False
    with b assms(1) have lt: "b < length h" and "ok_cell S (pend b) (h ! b)"
      by (auto simp: sanitized_def)
    then have "ok_cell (insert (length h) S) (pend b) (h ! b)"
      by (auto intro: ok_cell_mono)
    with lt show ?thesis by (simp add: nth_append)
  qed
qed

lemma clean_sanitized:
  assumes rwok: "\<And>k. \<not> forbidden (replace_key k rw)"
  shows "clean n rw cb v s = Some (v', s') \<Longrightarrow> sanitized (fst s) S pend
           \<Longrightarrow> \<exists>S'. S \<subseteq> S' \<and> sanitized (fst s') S' pend \<and> ok_val S' v' \<and> ok_val S' v"
proof (induction n arbitrary: v s v' s' S pend)
  case 0
  then show ?case by simp
next
  case (Suc n)
  have IH: "\<And>v s v' s' S pend. clean n rw cb v s = Some (v', s') \<Longrightarrow> sanitized (fst s) S pend
      \<Longrightarrow> \<exists>S'. S \<subseteq> S' \<and> sanitized (fst s') S' pend \<and> ok_val S' v' \<and> ok_val S' v"
    by (rule Suc.IH)
  have IH': "\<exists>S'. S \<subseteq> S' \<and> sanitized (fst s') S' pend \<and> ok_val S' v'"
    if "clean n rw cb v s = Some (v', s')" "sanitized (fst s) S pend" for v s v' s' S pend
  proof -
    from IH [OF that] obtain S' where "S \<subseteq> S'" "sanitized (fst s') S' pend" "ok_val S' v'"
      by (elim exE conjE)
    then show ?thesis by (intro exI [of _ S'] conjI)
  qed
  show ?case
  proof (cases "\<exists>a. v = Ref a")
    case False
    then have "clean (Suc n) rw cb v s = Some (v, s)" by (intro clean_Suc_other) simp
    with Suc.prems(1) have "v' = v" "s' = s" by simp_all
    moreover have "ok_val S v" using False by (cases v) (simp_all add: ok_val_def)
    ultimately show ?thesis using Suc.prems(2) by (intro exI [of _ S]) simp
  next
    case True
    then obtain a where Ref: "v = Ref a" by blast
    note run = Suc.prems(1) [unfolded Ref clean_Suc_Ref]
    from run obtain c where c: "lookup (fst s) a = Some c"
      by (cases "lookup (fst s) a") simp_all
    then have a_lt: "a < length (fst s)" and a_cell: "fst s ! a = c"
      by (simp_all add: lookup_Some)
    show ?thesis
    proof (cases c)
      case (Array vs)
      with run c have run':
        "(case map_elems (clean n rw cb) vs s of
            None \<Rightarrow> None
          | Some (vs', h', w') \<Rightarrow> Some (Ref (length h'), h' @ [Array vs'], w')) = Some (v', s')"
        by simp
      then obtain r where r: "map_elems (clean n rw cb) vs s = Some r"
        by (cases "map_elems (clean n rw cb) vs s") simp_all
      obtain vs' h' w' where "r = (vs', h', w')" by (cases r)
      with r have m: "map_elems (clean n rw cb) vs s = Some (vs', h', w')" by simp
      with run' have res: "v' = Ref (length h')" "s' = (h' @ [Array vs'], w')"
        by simp_all
      have rec: "\<And>v s v' s' S. clean n rw cb v s = Some (v', s') \<Longrightarrow> sanitized (fst s) S pend
          \<Longrightarrow> \<exists>S'. S \<subseteq> S' \<and> sanitized (fst s') S' pend \<and> ok_val S' v' \<and> ok_val S' v"
        by (rule IH)
      have "\<exists>S'. S \<subseteq> S' \<and> sanitized (fst (h', w')) S' pend
               \<and> (\<forall>w \<in> set vs'. ok_val S' w) \<and> (\<forall>w \<in> set vs. ok_val S' w)"
        using rec m Suc.prems(2) by (rule map_elems_sanitized)
      then obtain S1 where S1: "S \<subseteq> S1" "sanitized (fst (h', w')) S1 pend"
          "\<forall>w \<in> set vs'. ok_val S1 w" "\<forall>w \<in> set vs. ok_val S1 w"
        by (elim exE conjE)
      from S1(2) have inv1: "sanitized h' S1 pend" by (simp only: fst_conv)
      have "same_objects (fst s) (fst (h', w'))"
        using clean_same_objects m by (rule map_elems_same_objects)
      then have so: "same_objects (fst s) h'" by (simp only: fst_conv)
      with a_lt a_cell Array have old: "a < length h'" "h' ! a = Array vs"
        by (fastforce simp: same_objects_def)+
      from sanitized_insert_array [OF inv1 old S1(4)]
      have inv2: "sanitized h' (insert a S1) pend" .
      have "\<forall>w \<in> set vs'. ok_val (insert a S1) w"
        using S1(3) by (auto intro: ok_val_mono)
      from sanitized_append_array [OF inv2 this]
      have inv': "sanitized (fst s') (insert (length h') (insert a S1)) pend"
        by (simp only: res fst_conv)
      have ok': "ok_val (insert (length h') (insert a S1)) v'"
        by (simp only: res ok_val_def val.case insertI1)
      have ok: "ok_val (insert (length h') (insert a S1)) v"
        by (simp add: Ref ok_val_def)
      have sub: "S \<subseteq> insert (length h') (insert a S1)" using S1(1) by blast
      from sub inv' ok' ok show ?thesis
        by (intro exI [of _ "insert (length h') (insert a S1)"] conjI)
    next
      case (Object ps)
      with run c
      have f: "for_in (clean n rw cb) rw cb a (map fst ps) s = Some s'" and res: "v' = Ref a"
        by (simp_all split: option.splits)
      have start: "sanitized (fst s) (insert a S) (pend(a := pend a \<union> set (map fst ps)))"
        using Suc.prems(2) a_lt a_cell Object by (intro sanitized_insert_object) simp_all
      have ain: "a \<in> insert a S" by simp
      have "\<exists>S'. insert a S \<subseteq> S' \<and> sanitized (fst s') S' pend"
        using IH' rwok f ain start
        by (rule for_in_sanitized [where rec = "clean n rw cb" and pend = pend
              and S = "insert a S" and keys = "map fst ps"])
      then obtain S' where S': "insert a S \<subseteq> S'" "sanitized (fst s') S' pend"
        by (elim exE conjE)
      then have ok': "ok_val S' v'" and ok: "ok_val S' v"
        using res Ref by (auto simp: ok_val_def)
      from S'(1) have sub: "S \<subseteq> S'" by blast
      from sub S'(2) ok' ok show ?thesis by (intro exI [of _ S'] conjI)
    qed
  qed
qed

lemma reachable_sanitized:
  "reachable h v a \<Longrightarrow> sanitized h S (\<lambda>_. {}) \<Longrightarrow> ok_val S v \<Longrightarrow> a \<in> S"
proof (induction rule: reachable.induct)
  case (here a)
  then show ?case by (simp add: ok_val_def)
next
  case (step a w b)
  from step.prems have a: "a \<in> S" by (simp add: ok_val_def)
  with step.prems(1) have "ok_cell S {} (h ! a)" by (auto simp: sanitized_def)
  with step.hyps(2) have "ok_val S w"
    by (cases "h ! a") (auto simp: ok_cell_def children_def ran_def)
  with step show ?case by blast
qed

subsection \<open>clean returns on every acyclic heap\<close>

text \<open>
  On a ranked heap a call depth above the rank of the value is enough for \<open>clean\<close> to
  return; the heap it leaves is ranked again, and cells of higher rank than the value are
  untouched.
\<close>

lemma in_heap_mono: "in_heap h v \<Longrightarrow> length h \<le> length h' \<Longrightarrow> in_heap h' v"
  by (cases v) (simp_all add: in_heap_def)

lemma val_rank_agree:
  "in_heap h v \<Longrightarrow> \<forall>b < length h. rk' b = rk b \<Longrightarrow> val_rank rk' v = val_rank rk v"
  by (cases v) (simp_all add: in_heap_def val_rank_def)

lemma grows_refl: "ranked h rk \<Longrightarrow> grows h rk m h rk"
  by (simp add: grows_def)

lemma grows_mono: "grows h rk m h' rk' \<Longrightarrow> m \<le> m' \<Longrightarrow> grows h rk m' h' rk'"
  by (auto simp: grows_def)

lemma grows_trans:
  assumes "grows h rk m h1 rk1" and "grows h1 rk1 m h2 rk2"
  shows "grows h rk m h2 rk2"
  unfolding grows_def
proof (intro conjI allI impI)
  show "length h \<le> length h2" using assms by (simp add: grows_def)
  show "ranked h2 rk2" using assms by (simp add: grows_def)
next
  fix b assume "b < length h"
  then show "rk2 b = rk b" using assms by (simp add: grows_def)
next
  fix b assume b: "b < length h" and m: "m \<le> rk b"
  then have "h1 ! b = h ! b" and "rk1 b = rk b" and "b < length h1"
    using assms(1) by (auto simp: grows_def)
  with m assms(2) show "h2 ! b = h ! b" by (simp add: grows_def)
qed

lemma vals_obj_set: "snd ` set (obj_set k v ps) \<subseteq> insert v (snd ` set ps)"
  by (induction ps) auto

lemma vals_obj_delete: "snd ` set (obj_delete k ps) \<subseteq> snd ` set ps"
  by (auto simp: obj_delete_def)

lemma vals_assign_back:
  "snd ` set (assign_back key rw cv ps) \<subseteq> insert cv (snd ` set ps)"
  using vals_obj_set [of "replace_key key rw" cv "obj_delete key ps"]
    vals_obj_delete [of key ps] vals_obj_set [of key cv ps]
  by (auto simp: assign_back_def)

lemma obj_get_vals: "obj_get ps k = Undefined \<or> obj_get ps k \<in> snd ` set ps"
  by (auto simp: obj_get_def split: option.splits dest!: map_of_SomeD intro: rev_image_eqI)

lemma ranked_child:
  assumes "ranked h rk" and "a < length h" and "h ! a = Object ps"
  shows "in_heap h (obj_get ps k) \<and> val_rank rk (obj_get ps k) \<le> rk a"
proof (cases "obj_get ps k = Undefined")
  case True
  then show ?thesis by (simp add: in_heap_def val_rank_def)
next
  case False
  with obj_get_vals [of ps k] have "obj_get ps k \<in> cell_vals (h ! a)"
    using assms(3) by (simp add: cell_vals_def)
  with assms(1,2) show ?thesis by (simp add: ranked_def)
qed

lemma ranked_assign:
  assumes r: "ranked h rk" and a: "a < length h" and cell: "h ! a = Object ps"
    and cv: "in_heap h cv" "val_rank rk cv \<le> rk a"
  shows "ranked (h[a := Object (assign_back key rw cv ps)]) rk"
  unfolding ranked_def
proof (intro allI impI ballI)
  fix b w
  assume b: "b < length (h[a := Object (assign_back key rw cv ps)])"
    and w: "w \<in> cell_vals (h[a := Object (assign_back key rw cv ps)] ! b)"
  have "in_heap h w \<and> val_rank rk w \<le> rk b"
  proof (cases "b = a")
    case True
    with w a have "w \<in> snd ` set (assign_back key rw cv ps)" by (simp add: cell_vals_def)
    with vals_assign_back [of key rw cv ps] have "w = cv \<or> w \<in> snd ` set ps"
      by blast
    then have "w = cv \<or> w \<in> cell_vals (h ! a)"
      using cell by (simp add: cell_vals_def)
    with r a cv True show ?thesis by (auto simp: ranked_def)
  next
    case False
    with w b r show ?thesis by (simp add: ranked_def)
  qed
  then show "in_heap (h[a := Object (assign_back key rw cv ps)]) w \<and> val_rank rk w \<le> rk b"
    by (simp add: in_heap_def split: val.splits)
qed

lemma for_in_total:
  assumes rec: "\<And>v h w rk. ranked h rk \<Longrightarrow> in_heap h v \<Longrightarrow> val_rank rk v \<le> n \<Longrightarrow>
      \<exists>v' h' w' rk'. rec v (h, w) = Some (v', h', w') \<and> grows h rk (val_rank rk v) h' rk'
         \<and> in_heap h' v' \<and> val_rank rk' v' \<le> val_rank rk v"
  shows "ranked h rk \<Longrightarrow> a < length h \<Longrightarrow> h ! a = Object ps \<Longrightarrow> rk a \<le> n \<Longrightarrow>
     \<exists>h' w' rk'. for_in rec rw cb a keys (h, w) = Some (h', w') \<and> grows h rk (Suc (rk a)) h' rk'"
proof (induction keys arbitrary: h w rk ps)
  case Nil
  then show ?case by (auto intro: grows_refl)
next
  case (Cons key keys)
  have look: "lookup h a = Some (Object ps)" using Cons.prems by (simp add: lookup_Some)
  show ?case
  proof (cases "has_own ps key")
    case False
    from Cons.IH [OF Cons.prems, of w] obtain h' w' rk'
      where "for_in rec rw cb a keys (h, w) = Some (h', w')" "grows h rk (Suc (rk a)) h' rk'"
      by blast
    with False look show ?thesis by auto
  next
    case True
    let ?w0 = "obj_get ps key"
    from ranked_child [OF Cons.prems(1,2,3), of key]
    have w0: "in_heap h ?w0" "val_rank rk ?w0 \<le> rk a" by simp_all
    with Cons.prems(4) have "val_rank rk ?w0 \<le> n" by simp
    from rec [OF Cons.prems(1) w0(1) this, of "report cb key w"] obtain cv h1 w1 rk1
      where r: "rec ?w0 (h, report cb key w) = Some (cv, h1, w1)"
        and g1: "grows h rk (val_rank rk ?w0) h1 rk1"
        and cv: "in_heap h1 cv" "val_rank rk1 cv \<le> val_rank rk ?w0"
      by blast
    from g1 have len1: "length h \<le> length h1" and r1: "ranked h1 rk1"
      and agree1: "\<forall>b < length h. rk1 b = rk b"
      by (simp_all add: grows_def)
    from g1 w0(2) Cons.prems(2) have a1: "h1 ! a = h ! a" by (simp add: grows_def)
    with Cons.prems(2,3) len1 have look1: "lookup h1 a = Some (Object ps)"
      by (simp add: lookup_Some)
    have rka: "rk1 a = rk a" using agree1 Cons.prems(2) by simp
    let ?h2 = "h1[a := Object (assign_back key rw cv ps)]"
    have a_lt1: "a < length h1" using Cons.prems(2) len1 by simp
    have cell1: "h1 ! a = Object ps" using a1 Cons.prems(3) by simp
    have "val_rank rk1 cv \<le> rk1 a" using cv(2) w0(2) rka by simp
    from ranked_assign [OF r1 a_lt1 cell1 cv(1) this]
    have r2: "ranked ?h2 rk1" .
    have g2: "grows h rk (Suc (rk a)) ?h2 rk1"
      unfolding grows_def
    proof (intro conjI allI impI)
      show "length h \<le> length ?h2" using len1 by simp
      show "ranked ?h2 rk1" by (rule r2)
    next
      fix b assume "b < length h" then show "rk1 b = rk b" using agree1 by simp
    next
      fix b assume b: "b < length h" and m: "Suc (rk a) \<le> rk b"
      then have "b \<noteq> a" by auto
      moreover from g1 b m w0(2) have "h1 ! b = h ! b" by (simp add: grows_def)
      ultimately show "?h2 ! b = h ! b" by simp
    qed
    have "a < length ?h2" using a_lt1 by simp
    moreover have "?h2 ! a = Object (assign_back key rw cv ps)" using a_lt1 by simp
    moreover have "rk1 a \<le> n" using rka Cons.prems(4) by simp
    ultimately obtain h' w' rk'
      where f: "for_in rec rw cb a keys (?h2, w1) = Some (h', w')"
        and g3: "grows ?h2 rk1 (Suc (rk1 a)) h' rk'"
      using Cons.IH [OF r2, of "assign_back key rw cv ps" w1] by blast
    from g3 rka have "grows ?h2 rk1 (Suc (rk a)) h' rk'" by simp
    with g2 have "grows h rk (Suc (rk a)) h' rk'" by (rule grows_trans)
    moreover have "for_in rec rw cb a (key # keys) (h, w) = Some (h', w')"
      using True look r look1 f by simp
    ultimately show ?thesis by blast
  qed
qed

lemma map_elems_total:
  assumes rec: "\<And>v h w rk. ranked h rk \<Longrightarrow> in_heap h v \<Longrightarrow> val_rank rk v \<le> n \<Longrightarrow>
      \<exists>v' h' w' rk'. rec v (h, w) = Some (v', h', w') \<and> grows h rk (val_rank rk v) h' rk'
         \<and> in_heap h' v' \<and> val_rank rk' v' \<le> val_rank rk v"
    and mn: "m \<le> n"
  shows "ranked h rk \<Longrightarrow> \<forall>v \<in> set vs. in_heap h v \<and> val_rank rk v \<le> m \<Longrightarrow>
     \<exists>vs' h' w' rk'. map_elems rec vs (h, w) = Some (vs', h', w') \<and> grows h rk m h' rk'
        \<and> length vs' = length vs \<and> (\<forall>v' \<in> set vs'. in_heap h' v' \<and> val_rank rk' v' \<le> m)"
proof (induction vs arbitrary: h w rk)
  case Nil
  then show ?case by (auto intro: grows_refl)
next
  case (Cons v vs)
  from Cons.prems(2) have v: "in_heap h v" "val_rank rk v \<le> m" by simp_all
  with mn have "val_rank rk v \<le> n" by simp
  from rec [OF Cons.prems(1) v(1) this, of w] obtain v1 h1 w1 rk1
    where r: "rec v (h, w) = Some (v1, h1, w1)"
      and g1: "grows h rk (val_rank rk v) h1 rk1"
      and v1: "in_heap h1 v1" "val_rank rk1 v1 \<le> val_rank rk v"
    by blast
  from g1 v(2) have g1': "grows h rk m h1 rk1" by (rule grows_mono)
  then have len1: "length h \<le> length h1" and r1: "ranked h1 rk1"
    and agree1: "\<forall>b < length h. rk1 b = rk b"
    by (simp_all add: grows_def)
  have "\<forall>x \<in> set vs. in_heap h1 x \<and> val_rank rk1 x \<le> m"
  proof
    fix x assume "x \<in> set vs"
    with Cons.prems(2) have x: "in_heap h x" "val_rank rk x \<le> m" by simp_all
    from x(1) len1 have "in_heap h1 x" by (rule in_heap_mono)
    moreover from x(1) agree1 have "val_rank rk1 x = val_rank rk x" by (rule val_rank_agree)
    ultimately show "in_heap h1 x \<and> val_rank rk1 x \<le> m" using x(2) by simp
  qed
  from Cons.IH [OF r1 this, of w1] obtain vs1 h' w' rk'
    where m1: "map_elems rec vs (h1, w1) = Some (vs1, h', w')"
      and g2: "grows h1 rk1 m h' rk'"
      and len: "length vs1 = length vs"
      and rest: "\<forall>v' \<in> set vs1. in_heap h' v' \<and> val_rank rk' v' \<le> m"
    by blast
  from g2 have len2: "length h1 \<le> length h'" and agree2: "\<forall>b < length h1. rk' b = rk1 b"
    by (simp_all add: grows_def)
  have "in_heap h' v1" using v1(1) len2 by (rule in_heap_mono)
  moreover have "val_rank rk' v1 = val_rank rk1 v1" using v1(1) agree2 by (rule val_rank_agree)
  ultimately have first: "in_heap h' v1 \<and> val_rank rk' v1 \<le> m" using v1(2) v(2) by simp
  have "map_elems rec (v # vs) (h, w) = Some (v1 # vs1, h', w')" using r m1 by simp
  moreover have "grows h rk m h' rk'" using g1' g2 by (rule grows_trans)
  ultimately show ?case using len rest first by (intro exI [of _ "v1 # vs1"] exI [of _ h'] exI [of _ w'] exI [of _ rk']) simp
qed

lemma grows_append_array:
  assumes g: "grows h rk m h1 rk1" and m: "m \<le> Suc r"
    and elems: "\<forall>v' \<in> set vs'. in_heap h1 v' \<and> val_rank rk1 v' \<le> r"
  shows "grows h rk (Suc r) (h1 @ [Array vs']) (rk1(length h1 := r))"
proof -
  let ?l = "length h1" and ?h' = "h1 @ [Array vs']" and ?rk' = "rk1(length h1 := r)"
  from g have len: "length h \<le> length h1" and r1: "ranked h1 rk1"
    and agree: "\<forall>b < length h. rk1 b = rk b"
    and frame: "\<forall>b < length h. m \<le> rk b \<longrightarrow> h1 ! b = h ! b"
    by (simp_all add: grows_def)
  have same: "val_rank ?rk' w = val_rank rk1 w" if "in_heap h1 w" for w
    using that by (cases w) (simp_all add: in_heap_def val_rank_def)
  have "ranked ?h' ?rk'"
    unfolding ranked_def
  proof (intro allI impI ballI)
    fix b w assume b: "b < length ?h'" and w: "w \<in> cell_vals (?h' ! b)"
    show "in_heap ?h' w \<and> val_rank ?rk' w \<le> ?rk' b"
    proof (cases "b = ?l")
      case True
      with w have "w \<in> set vs'" by (simp add: cell_vals_def)
      with elems have "in_heap h1 w" "val_rank rk1 w \<le> r" by simp_all
      with same [of w] True show ?thesis by (simp add: in_heap_mono)
    next
      case False
      with b have lt: "b < ?l" by simp
      with w have "w \<in> cell_vals (h1 ! b)" by (simp add: nth_append)
      with r1 lt have "in_heap h1 w" "val_rank rk1 w \<le> rk1 b" by (simp_all add: ranked_def)
      with same [of w] False show ?thesis by (simp add: in_heap_mono)
    qed
  qed
  moreover have "\<forall>b < length h. ?rk' b = rk b" using agree len by simp
  moreover have "\<forall>b < length h. Suc r \<le> rk b \<longrightarrow> ?h' ! b = h ! b"
    using frame len m by (simp add: nth_append)
  ultimately show ?thesis using len by (simp add: grows_def)
qed

lemma clean_total:
  "ranked h rk \<Longrightarrow> in_heap h v \<Longrightarrow> val_rank rk v \<le> n \<Longrightarrow>
     \<exists>v' h' w' rk'. clean (Suc n) rw cb v (h, w) = Some (v', h', w')
        \<and> grows h rk (val_rank rk v) h' rk' \<and> in_heap h' v' \<and> val_rank rk' v' \<le> val_rank rk v"
proof (induction n arbitrary: v h w rk)
  case 0
  then have "\<forall>a. v \<noteq> Ref a" by (auto simp: val_rank_def)
  then have "clean (Suc 0) rw cb v (h, w) = Some (v, h, w)" by (rule clean_Suc_other)
  with 0 show ?case by (auto intro: grows_refl)
next
  case (Suc n)
  have IH: "\<And>v h w rk. ranked h rk \<Longrightarrow> in_heap h v \<Longrightarrow> val_rank rk v \<le> n \<Longrightarrow>
      \<exists>v' h' w' rk'. clean (Suc n) rw cb v (h, w) = Some (v', h', w')
         \<and> grows h rk (val_rank rk v) h' rk' \<and> in_heap h' v' \<and> val_rank rk' v' \<le> val_rank rk v"
    by (rule Suc.IH)
  show ?case
  proof (cases "\<exists>a. v = Ref a")
    case False
    then have "clean (Suc (Suc n)) rw cb v (h, w) = Some (v, h, w)"
      by (intro clean_Suc_other) simp
    with Suc.prems show ?thesis by (auto intro: grows_refl)
  next
    case True
    then obtain a where v: "v = Ref a" by blast
    with Suc.prems have a: "a < length h" and rka: "rk a \<le> n"
      by (simp_all add: in_heap_def val_rank_def)
    have vr: "val_rank rk v = Suc (rk a)" using v by (simp add: val_rank_def)
    show ?thesis
    proof (cases "h ! a")
      case (Object ps)
      from for_in_total [where rec = "clean (Suc n) rw cb" and n = n, OF IH Suc.prems(1) a Object rka,
          of rw cb "map fst ps" w]
      obtain h' w' rk' where f: "for_in (clean (Suc n) rw cb) rw cb a (map fst ps) (h, w) = Some (h', w')"
        and g: "grows h rk (Suc (rk a)) h' rk'"
        by blast
      have res: "clean (Suc (Suc n)) rw cb v (h, w) = Some (Ref a, h', w')"
        unfolding v clean_Suc_Ref using a Object f by (simp add: lookup_def)
      from g a have ih: "in_heap h' (Ref a)" and "rk' a = rk a"
        by (simp_all add: grows_def in_heap_def)
      then have le: "val_rank rk' (Ref a) \<le> val_rank rk v"
        using vr by (simp add: val_rank_def)
      from g have g': "grows h rk (val_rank rk v) h' rk'" by (simp only: vr)
      from res g' ih le show ?thesis by (intro exI conjI)
    next
      case (Array vs)
      have elems: "\<forall>x \<in> set vs. in_heap h x \<and> val_rank rk x \<le> rk a"
        using Suc.prems(1) a Array by (simp add: ranked_def cell_vals_def)
      from map_elems_total [where rec = "clean (Suc n) rw cb" and n = n and m = "rk a",
          OF IH rka Suc.prems(1) elems, of w]
      obtain vs' h1 w1 rk1
        where m: "map_elems (clean (Suc n) rw cb) vs (h, w) = Some (vs', h1, w1)"
          and g: "grows h rk (rk a) h1 rk1"
          and elems': "\<forall>v' \<in> set vs'. in_heap h1 v' \<and> val_rank rk1 v' \<le> rk a"
        by blast
      let ?h' = "h1 @ [Array vs']" and ?rk' = "rk1(length h1 := rk a)"
      have res: "clean (Suc (Suc n)) rw cb v (h, w) = Some (Ref (length h1), ?h', w1)"
        unfolding v clean_Suc_Ref using a Array m by (simp add: lookup_def)
      have "grows h rk (Suc (rk a)) ?h' ?rk'"
        using g _ elems' by (rule grows_append_array) simp
      then have g': "grows h rk (val_rank rk v) ?h' ?rk'" by (simp only: vr)
      have ih: "in_heap ?h' (Ref (length h1))" by (simp add: in_heap_def)
      have le: "val_rank ?rk' (Ref (length h1)) \<le> val_rank rk v"
        using vr by (simp add: val_rank_def)
      from res g' ih le show ?thesis by (intro exI conjI)
    qed
  qed
qed

lemma clean_returns_on_acyclic_heap:
  assumes "ranked h rk" and "in_heap h v" and "val_rank rk v \<le> n"
  shows "\<exists>v' h' w'. clean (Suc n) rw cb v (h, w) = Some (v', h', w')"
  using clean_total [OF assms, of rw cb w] by blast

subsection \<open>The call depth only decides whether clean returns\<close>






subsection \<open>The keys of a cleaned object\<close>




subsection \<open>What the middleware leaves in the request\<close>

text \<open>
  \<open>mongoSanitize\<close> drops what \<open>clean\<close> returns, so what counts is what is reachable from
  \<open>req.body\<close>, \<open>req.query\<close> and \<open>req.params\<close> themselves afterwards.
\<close>

lemma clean_field_sanitized:
  assumes rwok: "\<And>k. \<not> forbidden (replace_key k rw)"
    and run: "clean_field n rw cb v s = Some s'"
    and inv: "sanitized (fst s) S pend"
  shows "\<exists>S'. S \<subseteq> S' \<and> sanitized (fst s') S' pend \<and> ok_val S' v"
proof (cases "falsy v")
  case True
  with run have "s' = s" by (simp add: clean_field_def)
  moreover from True have "ok_val S v" by (cases v) (simp_all add: falsy_def ok_val_def)
  ultimately show ?thesis using inv by (intro exI [of _ S]) simp
next
  case False
  with run obtain v' where "clean n rw cb v s = Some (v', s')"
    by (auto simp: clean_field_def split: option.splits)
  from clean_sanitized [OF rwok this inv] show ?thesis by blast
qed

lemma mongoSanitize_leaves_no_forbidden_key:
  assumes run: "mongoSanitize n ''_'' cb req (h, w) = Some (h', w')"
    and v: "v = req_body req \<or> v = req_query req \<or> v = req_params req"
    and reach: "reachable h' v a" and cell: "h' ! a = Object ps" and k: "k \<in> fst ` set ps"
  shows "\<not> startsWith_dollar k \<and> \<not> includes_dot k"
proof -
  from run obtain s1 s2
    where c1: "clean_field n ''_'' cb (req_body req) (h, w) = Some s1"
      and c2: "clean_field n ''_'' cb (req_query req) s1 = Some s2"
      and c3: "clean_field n ''_'' cb (req_params req) s2 = Some (h', w')"
    by (auto simp: mongoSanitize_def split: option.splits)
  have "sanitized (fst (h, w)) {} (\<lambda>_. {})" by (simp add: sanitized_def)
  from clean_field_sanitized [OF replace_key_underscore_ok c1 this] obtain S1
    where S1: "sanitized (fst s1) S1 (\<lambda>_. {})" "ok_val S1 (req_body req)" by blast
  from clean_field_sanitized [OF replace_key_underscore_ok c2 S1(1)] obtain S2
    where S2: "S1 \<subseteq> S2" "sanitized (fst s2) S2 (\<lambda>_. {})" "ok_val S2 (req_query req)" by blast
  from clean_field_sanitized [OF replace_key_underscore_ok c3 S2(2)] obtain S3
    where S3: "S2 \<subseteq> S3" "sanitized (fst (h', w')) S3 (\<lambda>_. {})" "ok_val S3 (req_params req)"
    by blast
  from S3(2) have inv: "sanitized h' S3 (\<lambda>_. {})" by simp
  have "ok_val S3 v"
    using v S1(2) S2(1,3) S3(1,3) by (auto intro: ok_val_mono)
  with reach inv have "a \<in> S3" by (rule reachable_sanitized)
  with inv cell have "ok_cell S3 {} (Object ps)" by (auto simp: sanitized_def)
  moreover from k obtain x where "map_of ps k = Some x"
    by (metis has_own_def has_own_iff not_Some_eq set_map)
  ultimately show ?thesis by (auto simp: ok_cell_Object forbidden_def)
qed

subsection \<open>In-place rewriting and the keys it leaves\<close>



text \<open>
  C10.  With the default replacement character \<open>_\<close>: whenever \<open>clean\<close> returns, no own key
  of any object reachable from the value it returns --- or from the value it was given ---
  begins with \<open>$\<close> or contains \<open>.\<close>; and a value that is not an object or array (a
  primitive, \<open>null\<close>, \<open>undefined\<close>) is returned as it is, with nothing changed.
\<close>

theorem clean_leaves_no_forbidden_key:
  assumes "clean n ''_'' cb v (h, w) = Some (v', h', w')"
  shows "(\<forall>a ps k. (reachable h' v' a \<or> reachable h' v a) \<and> h' ! a = Object ps
              \<and> k \<in> fst ` set ps
            \<longrightarrow> \<not> startsWith_dollar k \<and> \<not> includes_dot k)
       \<and> ((\<forall>a. v \<noteq> Ref a) \<longrightarrow> v' = v \<and> h' = h \<and> w' = w)"
proof -
  have "sanitized (fst (h, w)) {} (\<lambda>_. {})" by (simp add: sanitized_def)
  from clean_sanitized [OF replace_key_underscore_ok assms this]
  obtain S where S: "sanitized h' S (\<lambda>_. {})" and ok: "ok_val S v'" "ok_val S v" by auto
  have "\<not> startsWith_dollar k \<and> \<not> includes_dot k"
    if "reachable h' v' a \<or> reachable h' v a" "h' ! a = Object ps" "k \<in> fst ` set ps"
    for a ps k
  proof -
    from that(1) S ok have "a \<in> S" by (auto dest: reachable_sanitized)
    with S that(2) have "ok_cell S {} (Object ps)" by (auto simp: sanitized_def)
    moreover from that(3) obtain w where "map_of ps k = Some w"
      by (metis has_own_def has_own_iff not_Some_eq set_map)
    ultimately show ?thesis by (auto simp: ok_cell_Object forbidden_def)
  qed
  moreover have "v' = v \<and> h' = h \<and> w' = w" if "\<forall>a. v \<noteq> Ref a"
  proof -
    from that have "falsy v \<or> typeof v \<noteq> ''object''" by (simp add: not_object_value)
    with assms show ?thesis by (cases n) auto
  qed
  ultimately show ?thesis by blast
qed

theorem clean_leaves_no_forbidden_key_witness:
  "clean 5 ''_'' None (Ref 0)
     ([Array [Ref 1],
       Object [(''$or'', Ref 2), (''user.name'', String ''x'')],
       Array [Ref 3],
       Object [(''$ne'', Null)]], ())
   = Some (Ref 5,
       [Array [Ref 1], Object [(''_or'', Ref 4), (''user_name'', String ''x'')],
        Array [Ref 3], Object [(''_ne'', Null)], Array [Ref 3], Array [Ref 1]], ())
   \<and> reachable
       [Array [Ref 1], Object [(''_or'', Ref 4), (''user_name'', String ''x'')],
        Array [Ref 3], Object [(''_ne'', Null)], Array [Ref 3], Array [Ref 1]] (Ref 5) 1
   \<and> \<not> startsWith_dollar ''_or'' \<and> \<not> includes_dot ''_or''
   \<and> \<not> startsWith_dollar ''user_name'' \<and> \<not> includes_dot ''user_name''"
proof -
  let ?h' = "[Array [Ref 1], Object [(''_or'', Ref 4), (''user_name'', String ''x'')],
        Array [Ref 3], Object [(''_ne'', Null)], Array [Ref 3], Array [Ref 1]]"
  have run: "clean 5 ''_'' None (Ref 0)
     ([Array [Ref 1],
       Object [(''$or'', Ref 2), (''user.name'', String ''x'')],
       Array [Ref 3],
       Object [(''$ne'', Null)]], ())
   = Some (Ref 5, ?h', ())"
    by code_simp
  have "reachable ?h' (Ref 1) 1" by (rule reachable.here) simp
  then have reach: "reachable ?h' (Ref 5) 1"
    by (rule reachable.step [rotated 2]) (simp_all add: children_def)
  have cell: "?h' ! 1 = Object [(''_or'', Ref 4), (''user_name'', String ''x'')]" by simp
  from clean_leaves_no_forbidden_key [OF run] reach cell
  have "\<not> startsWith_dollar k \<and> \<not> includes_dot k"
    if "k \<in> fst ` set [(''_or'', Ref 4), (''user_name'', String ''x'')]" for k
    using that by blast
  from this [of "''_or''"] this [of "''user_name''"] run reach show ?thesis by simp
qed

end
